theory Spec2Isabelle
  imports Main "HOL-Library.Word"
begin

unbundle bit_operations_syntax

section \<open>Values\<close>

text \<open>
  A Buffer is a sequence of bytes. A JavaScript string is a sequence of UTF-16 code
  units: \<open>length\<close> and \<open>substr\<close> count code units, and it is written to the port
  and turned into a Buffer as its UTF-8 text. \<open>js\<close> is the string of a literal,
  each character being one code unit.
\<close>

type_synonym byte = "8 word"
type_synonym buffer = "byte list"
type_synonym jsstring = "16 word list"

definition js :: "string \<Rightarrow> jsstring" where
  "js s = map of_char s"

definition high_surrogate :: "16 word \<Rightarrow> bool" where
  "high_surrogate u \<longleftrightarrow> 0xD800 \<le> unat u \<and> unat u < 0xDC00"

definition low_surrogate :: "16 word \<Rightarrow> bool" where
  "low_surrogate u \<longleftrightarrow> 0xDC00 \<le> unat u \<and> unat u < 0xE000"

text \<open>The bytes of one code unit that is not part of a pair: one, two or three bytes,
  and the three bytes of the replacement character for a surrogate on its own.\<close>

definition utf8_unit :: "16 word \<Rightarrow> buffer" where
  "utf8_unit u =
     (let c = unat u in
      if c < 0x80 then [of_nat c]
      else if c < 0x800 then [of_nat (0xC0 + c div 64), of_nat (0x80 + c mod 64)]
      else if high_surrogate u \<or> low_surrogate u then [0xEF, 0xBF, 0xBD]
      else [of_nat (0xE0 + c div 4096), of_nat (0x80 + (c div 64) mod 64),
            of_nat (0x80 + c mod 64)])"

text \<open>The four bytes of a surrogate pair.\<close>

definition utf8_pair :: "16 word \<Rightarrow> 16 word \<Rightarrow> buffer" where
  "utf8_pair u l =
     (let p = 0x10000 + (unat u - 0xD800) * 1024 + (unat l - 0xDC00) in
      [of_nat (0xF0 + p div 262144), of_nat (0x80 + (p div 4096) mod 64),
       of_nat (0x80 + (p div 64) mod 64), of_nat (0x80 + p mod 64)])"

fun utf8 :: "jsstring \<Rightarrow> buffer" where
  "utf8 [] = []"
| "utf8 [u] = utf8_unit u"
| "utf8 (u # l # us) =
     (if high_surrogate u \<and> low_surrogate l then utf8_pair u l @ utf8 us
      else utf8_unit u @ utf8 (l # us))"

text \<open>
  The arguments of \<open>write\<close> and \<open>expect\<close> are JavaScript values: a string, an array
  of numbers, a single number or (for \<open>expect\<close>) a regular expression, of which only
  the source text is kept.
\<close>

datatype jsdata = Str jsstring | Arr "int list" | Num int | Rx string

text \<open>
  \<open>new Buffer(data)\<close> for an array or a string, \<open>new Buffer([data])\<close> otherwise: an
  array element is stored modulo 256, and an element that is not a number (a RegExp
  object converts to NaN) is stored as 0.
\<close>

fun to_buffer :: "jsdata \<Rightarrow> buffer" where
  "to_buffer (Str s) = utf8 s"
| "to_buffer (Arr xs) = map word_of_int xs"
| "to_buffer (Num n) = [word_of_int n]"
| "to_buffer (Rx r) = [0]"

datatype error = CannotAcquire | TooManyBytes | NotStarted | PortError nat

datatype jsval = VUndefined | VBool bool | VBuffer buffer | VString string | VError error

type_synonym result = "error + jsval"

section \<open>Options and constants\<close>

record periph_options =
  p_power :: "bool option"
  p_pullups :: "bool option"
  p_aux :: "bool option"
  p_mosi :: "bool option"
  p_clk :: "bool option"
  p_miso :: "bool option"
  p_cs :: "bool option"

record uart_options =
  opt_baudrate :: "int option"
  opt_pin_output :: "int option"
  opt_data_bits :: "int option"
  opt_parity_bit :: "string option"
  opt_stop_bits :: "int option"
  opt_idle_polarity :: "int option"

record uart_settings =
  baudrate :: int
  pin_output :: int
  data_bits :: int
  parity_bit :: string
  stop_bits :: int
  idle_polarity :: int

record mode_constants =
  MODE_ID :: int
  MODE_NAME :: string
  MODE_ACK :: jsstring

definition uart_constants :: mode_constants where
  "uart_constants = \<lparr>MODE_ID = 0x03, MODE_NAME = ''uart'', MODE_ACK = js ''ART1''\<rparr>"

section \<open>Promise chains\<close>

text \<open>
  A promise chain is a list of links. A link is either a call of a method of the
  library, made when the chain reaches it, or one of the callbacks the methods pass to
  \<open>then\<close> and \<open>catch\<close>.
\<close>

datatype link =
    LWrite jsdata
  | LExpect jsdata
  | LSleep
  | LResetConsole
  | LInstall
  | LEnterBinmode
  | LSwitchMode mode_constants
  | LSetMode string
  | LConfigPeriph periph_options
  | LEmitPeripherals int
  | LCatchLog
  | LUartStart uart_options
  | LStartBody uart_options
  | LSetopts uart_options
  | LReady
  | LCatchEmitError
  | LEchoRx bool
  | LSetEcho bool
  | LUartBridge
  | LSetBridge
  | LWriteBlock jsstring
  | LUartWrite jsstring
  | LOpen
  | LConnected
  | LCatchOpen

datatype wait = OnWrite | OnWaiter | OnTimer | OnProbe nat

datatype outcome = Fulfilled jsval | Rejected error

datatype task = Blocked wait "link list" | Settled outcome

datatype notification =
    NConnected | NMode string | NPeripherals int | NReady | NRxEcho bool
  | NUartBridge | NError error

section \<open>The session\<close>

text \<open>
  The fields of the BusPirate object and of its Uart object, the serial port as far as
  the library sees it (\<open>sent\<close>: the arguments of \<open>port.write\<close> in call order;
  \<open>callbacks\<close>: the write callbacks not yet called, oldest first), the pending promise
  chains (\<open>tasks\<close>, a chain's number is its position) and two logs: \<open>resolved\<close>
  holds the calls of \<open>resolve\<close> made by waiters, in the order they were made, and
  \<open>emitted\<close> the events emitted.

  \<open>waiters\<close> is the array \<open>this.waiters\<close>: \<open>expect\<close> puts a new waiter at the
  front. A waiter is the closure over the wanted bytes and the promise to resolve.
\<close>

record session =
  mode :: string
  waiters :: "(nat \<times> buffer) list"
  data_buffer :: buffer
  started :: bool
  echo_rx_on :: bool
  settings :: "uart_settings option"
  listening :: bool
  error_listeners :: bool
  sent :: "buffer list"
  callbacks :: "nat option list"
  tasks :: "task list"
  resolved :: "(nat \<times> buffer) list"
  emitted :: "notification list"

definition new_session :: session where
  "new_session = \<lparr>mode = '''', waiters = [], data_buffer = [], started = False,
     echo_rx_on = False, settings = None, listening = False, error_listeners = False,
     sent = [], callbacks = [], tasks = [], resolved = [], emitted = []\<rparr>"

section \<open>The stream matcher\<close>

text \<open>
  The waiter that \<open>expect\<close> registers. \<open>data\<close> is the Buffer made from the
  argument, so the test \<open>data instanceof RegExp\<close> is false whatever was passed, and
  the waiter is the other branch: too few bytes received, or a byte that differs
  (compared from the last index down), and the waiter returns what it was given;
  otherwise it resolves its promise with \<open>data\<close> (all the bytes received when \<open>data\<close>
  is empty) and returns the bytes after it. \<open>None\<close> is the return of the received
  bytes without a resolution.
\<close>

fun differs :: "nat \<Rightarrow> buffer \<Rightarrow> buffer \<Rightarrow> bool" where
  "differs 0 d r = False"
| "differs (Suc i) d r = (if d ! i \<noteq> r ! i then True else differs i d r)"

definition waiter_fn :: "buffer \<Rightarrow> buffer \<Rightarrow> (buffer \<times> buffer) option" where
  "waiter_fn d data_received =
     (if length data_received < length d then None
      else if length d = 0
        then Some (data_received, drop (length data_received) data_received)
      else if differs (length d) d data_received then None
      else Some (d, drop (length d) data_received))"

definition splice1 :: "nat \<Rightarrow> 'a list \<Rightarrow> 'a list" where
  "splice1 idx arr = take idx arr @ drop (Suc idx) arr"

definition call_waiter :: "nat \<Rightarrow> session \<Rightarrow> session" where
  "call_waiter i s =
     (case waiter_fn (snd (waiters s ! i)) (data_buffer s) of
        None \<Rightarrow> s
      | Some (v, rest) \<Rightarrow>
          s\<lparr>waiters := splice1 i (waiters s),
            resolved := resolved s @ [(fst (waiters s ! i), v)],
            data_buffer := rest\<rparr>)"

text \<open>The loop \<open>for (i = waiters.length - 1; i >= 0; i--)\<close>; \<open>serve n\<close> runs the
  indices below \<open>n\<close>, highest first.\<close>

fun serve :: "nat \<Rightarrow> session \<Rightarrow> session" where
  "serve 0 s = s"
| "serve (Suc i) s = serve i (call_waiter i s)"

text \<open>The handler of the port's \<open>data\<close> event.\<close>

definition on_data :: "buffer \<Rightarrow> session \<Rightarrow> session" where
  "on_data data s =
     (if length (waiters s) > 0
      then serve (length (waiters s)) (s\<lparr>data_buffer := data_buffer s @ data\<rparr>)
      else s)"

section \<open>Methods of BusPirate\<close>

text \<open>
  What a link does when the chain reaches it: it goes on with a result and with the
  links of the promise it returned put in front of the rest of the chain (\<open>Go\<close>), or
  the chain waits for an event (\<open>Wait\<close>).
\<close>

datatype advance = Go result "link list" session | Wait wait session

text \<open>\<open>write\<close>: the data goes to \<open>port.write\<close>, and the promise is settled by the
  port's callback.\<close>

definition bp_write :: "nat \<Rightarrow> jsdata \<Rightarrow> session \<Rightarrow> advance" where
  "bp_write tid data s =
     Wait OnWrite (s\<lparr>sent := sent s @ [to_buffer data],
                    callbacks := callbacks s @ [Some tid]\<rparr>)"

text \<open>\<open>expect\<close>: the waiter is put at the start of the array.\<close>

definition expect :: "nat \<Rightarrow> jsdata \<Rightarrow> session \<Rightarrow> advance" where
  "expect tid data s = Wait OnWaiter (s\<lparr>waiters := (tid, to_buffer data) # waiters s\<rparr>)"

definition reset_bytes :: "int list" where
  "reset_bytes = [0x0d, 0x0d, 0x0d, 0x0d, 0x0d, 0x0d, 0x0d, 0x0d, 0x0d, 0x0d, 0x23]"

definition reset_console :: "session \<Rightarrow> advance" where
  "reset_console s = Go (Inr VUndefined) [LWrite (Arr reset_bytes), LSleep] s"

text \<open>
  \<open>enter_binmode\<close>: nothing to do in the modes \<open>binmode\<close> and \<open>uart_bridge\<close>.
  Otherwise the interval timer is started with its counter at 0, the waiter for
  \<open>BBIO1\<close> is registered, and the chain waits for the race of the two.
\<close>

definition enter_binmode :: "nat \<Rightarrow> session \<Rightarrow> advance" where
  "enter_binmode tid s =
     (if mode s = ''binmode'' \<or> mode s = ''uart_bridge'' then Go (Inr VUndefined) [] s
      else Wait (OnProbe 0) (s\<lparr>waiters := (tid, to_buffer (Str (js ''BBIO1''))) # waiters s\<rparr>))"

text \<open>The event \<open>mode\<close>, with the listener of the Uart object, which clears
  \<open>started\<close> when another mode is entered.\<close>

definition emit_mode :: "string \<Rightarrow> session \<Rightarrow> session" where
  "emit_mode m s =
     s\<lparr>emitted := emitted s @ [NMode m],
       started := (if m \<noteq> MODE_NAME uart_constants then False else started s)\<rparr>"

text \<open>The callback of \<open>enter_binmode\<close> for the arrival of \<open>BBIO1\<close>.\<close>

definition binmode_entered :: "session \<Rightarrow> session" where
  "binmode_entered s = emit_mode ''binmode'' (s\<lparr>mode := ''binmode''\<rparr>)"

definition switch_mode :: "mode_constants \<Rightarrow> session \<Rightarrow> advance" where
  "switch_mode newmode s =
     (if mode s = ''uart_bridge'' then Go (Inr (VString ''uart_bridge'')) [] s
      else if mode s \<noteq> ''binmode''
      then Go (Inr VUndefined)
             [LResetConsole, LEnterBinmode, LWrite (Num (MODE_ID newmode)),
              LExpect (Str (MODE_ACK newmode)), LSetMode (MODE_NAME newmode)] s
      else Go (Inr VUndefined)
             [LWrite (Num (MODE_ID newmode)), LExpect (Str (MODE_ACK newmode)),
              LSetMode (MODE_NAME newmode)] s)"

definition set_mode :: "string \<Rightarrow> session \<Rightarrow> advance" where
  "set_mode name s = Go (Inr (VString name)) [] (emit_mode name (s\<lparr>mode := name\<rparr>))"

text \<open>\<open>config_periph\<close>: the options over the defaults (all false), and the command
  byte as the source computes it.\<close>

definition flag :: "bool option \<Rightarrow> bool" where
  "flag x = (case x of None \<Rightarrow> False | Some b \<Rightarrow> b)"

definition b2i :: "bool \<Rightarrow> int" where
  "b2i b = (if b then 1 else 0)"

definition periph_code :: "periph_options \<Rightarrow> int" where
  "periph_code opts =
     0x80 OR push_bit 6 (b2i (flag (p_power opts)))
          OR push_bit 5 (b2i (flag (p_pullups opts)))
          OR push_bit 4 (b2i (flag (p_aux opts)))
          OR push_bit 3 (b2i (flag (p_mosi opts)))
          OR b2i (b2i (flag (p_clk opts)) < 2)
          OR push_bit 1 (b2i (flag (p_miso opts)))
          OR b2i (flag (p_cs opts))"

definition config_periph :: "periph_options \<Rightarrow> session \<Rightarrow> advance" where
  "config_periph opts s =
     Go (Inr VUndefined)
        [LWrite (Num (periph_code opts)), LExpect (Num 0x1),
         LEmitPeripherals (periph_code opts), LCatchLog] s"

text \<open>The handler of the port's \<open>open\<close> event.\<close>

definition on_open :: "session \<Rightarrow> advance" where
  "on_open s =
     Go (Inr VUndefined) [LResetConsole, LInstall, LEnterBinmode, LConnected, LCatchOpen] s"

section \<open>Methods of Uart\<close>

definition uart_start :: "uart_options \<Rightarrow> session \<Rightarrow> advance" where
  "uart_start options s =
     Go (Inr VUndefined) [LSwitchMode uart_constants, LStartBody options, LCatchLog] s"

definition uart_defaults :: uart_settings where
  "uart_defaults = \<lparr>baudrate = 9600, pin_output = 1, data_bits = 8, parity_bit = ''N'',
     stop_bits = 1, idle_polarity = 1\<rparr>"

text \<open>\<open>options[opt] || uart_defaults[opt]\<close>: a missing option, 0 and the empty string
  give the default.\<close>

definition or_int :: "int option \<Rightarrow> int \<Rightarrow> int" where
  "or_int x d = (case x of None \<Rightarrow> d | Some v \<Rightarrow> if v = 0 then d else v)"

definition or_str :: "string option \<Rightarrow> string \<Rightarrow> string" where
  "or_str x d = (case x of None \<Rightarrow> d | Some v \<Rightarrow> if v = [] then d else v)"

definition parse_options :: "uart_options \<Rightarrow> uart_settings" where
  "parse_options options =
     \<lparr>baudrate = or_int (opt_baudrate options) (baudrate uart_defaults),
      pin_output = or_int (opt_pin_output options) (pin_output uart_defaults),
      data_bits = or_int (opt_data_bits options) (data_bits uart_defaults),
      parity_bit = or_str (opt_parity_bit options) (parity_bit uart_defaults),
      stop_bits = or_int (opt_stop_bits options) (stop_bits uart_defaults),
      idle_polarity = or_int (opt_idle_polarity options) (idle_polarity uart_defaults)\<rparr>"

definition bauds :: "int \<Rightarrow> int option" where
  "bauds b =
     (if b = 300 then Some 0x60 else if b = 1200 then Some 0x61
      else if b = 2400 then Some 0x62 else if b = 4800 then Some 0x63
      else if b = 9600 then Some 0x64 else if b = 19200 then Some 0x65
      else if b = 31250 then Some 0x66 else if b = 38400 then Some 0x67
      else if b = 57600 then Some 0x68 else if b = 115200 then Some 0x69
      else None)"

definition baudcmd :: "uart_settings \<Rightarrow> int" where
  "baudcmd opts =
     (case bauds (baudrate opts) of Some c \<Rightarrow> c
      | None \<Rightarrow> the (bauds (baudrate uart_defaults)))"

text \<open>\<open>indexOf\<close>: the first position of \<open>p\<close> in the string, or -1.\<close>

fun index_of :: "string \<Rightarrow> string \<Rightarrow> int" where
  "index_of [] p = (if p = [] then 0 else - 1)"
| "index_of (c # cs) p =
     (if take (length p) (c # cs) = p then 0
      else if index_of cs p < 0 then - 1 else index_of cs p + 1)"

definition uart_config :: "uart_settings \<Rightarrow> int" where
  "uart_config opts =
     (let w = push_bit 4 (pin_output opts);
          xx = push_bit 2 (if data_bits opts = 9 then 3
                           else index_of ''NEO'' (parity_bit opts));
          y = push_bit 1 (if stop_bits opts = 2 then 1 else 0 :: int);
          z = (if idle_polarity opts \<noteq> 0 then 0 else 1)
      in 0x80 OR w OR xx OR y OR z)"

text \<open>\<open>setopts\<close> once the driver is started.\<close>

definition setopts_body :: "uart_options \<Rightarrow> session \<Rightarrow> advance" where
  "setopts_body options s =
     (let opts = parse_options options
      in Go (Inr VUndefined)
            [LWrite (Num (baudcmd opts)), LExpect (Num 0x01),
             LWrite (Num (uart_config opts)), LExpect (Num 0x1),
             LReady, LCatchEmitError]
            (s\<lparr>settings := Some opts\<rparr>))"

definition setopts :: "uart_options \<Rightarrow> session \<Rightarrow> advance" where
  "setopts options s =
     (if \<not> started s then uart_start options s else setopts_body options s)"

text \<open>The callback of \<open>start\<close> for the mode that \<open>switch_mode\<close> reports: it sets
  \<open>started\<close> and calls \<open>setopts\<close>, which then finds the driver started.\<close>

definition start_body :: "uart_options \<Rightarrow> jsval \<Rightarrow> session \<Rightarrow> advance" where
  "start_body options m s =
     (if m = VString (MODE_NAME uart_constants)
      then setopts_body options (s\<lparr>started := True\<rparr>)
      else if m = VString ''uart_bridge''
      then Go (Inr (VBool True)) [] (s\<lparr>started := True, emitted := emitted s @ [NReady]\<rparr>)
      else Go (Inr (VBool False)) [] s)"

definition echo_rx :: "bool \<Rightarrow> session \<Rightarrow> advance" where
  "echo_rx on s =
     (if mode s = ''uart_bridge'' then Go (Inr (VBool True)) [] s
      else Go (Inr VUndefined)
             [LWrite (Num (if on then 0x02 else 0x03)), LExpect (Num 0x01), LSetEcho on] s)"

definition set_echo :: "bool \<Rightarrow> session \<Rightarrow> advance" where
  "set_echo on s =
     Go (Inr (VBool True)) [] (s\<lparr>echo_rx_on := on, emitted := emitted s @ [NRxEcho on]\<rparr>)"

definition uart_bridge :: "session \<Rightarrow> advance" where
  "uart_bridge s =
     (if mode s = ''uart_bridge'' then Go (Inr (VBool True)) [] s
      else Go (Inr VUndefined) [LWrite (Num 0x0f), LSetBridge] s)"

definition set_bridge :: "session \<Rightarrow> advance" where
  "set_bridge s =
     Go (Inr (VBool True)) []
        (s\<lparr>mode := ''uart_bridge'', emitted := emitted s @ [NUartBridge]\<rparr>)"

text \<open>
  \<open>write_block\<close> returns either an Error object (\<open>Inl\<close>) or the promise of its chain
  (\<open>Inr\<close>). Its argument is here a string, as \<open>write\<close> passes it, and
  \<open>buffer.length\<close> is the number of code units of the string, not of the bytes
  written for it.
\<close>

definition write_block :: "jsstring \<Rightarrow> session \<Rightarrow> error + link list" where
  "write_block buffer s =
     (if length buffer > 16 then Inl TooManyBytes
      else if \<not> started s then Inl NotStarted
      else Inr [LWrite (Num (0x10 + int (length buffer) - 1)), LExpect (Num 0x1),
                LWrite (Str buffer), LExpect (Arr (replicate (length buffer) 0x01))])"

text \<open>The callback \<open>() => this.write_block(chunk)\<close> of \<open>write\<close>: a returned value
  that is not a promise fulfils the chain.\<close>

definition then_write_block :: "jsstring \<Rightarrow> session \<Rightarrow> advance" where
  "then_write_block chunk s =
     (case write_block chunk s of
        Inl e \<Rightarrow> Go (Inr (VError e)) [] s
      | Inr ls \<Rightarrow> Go (Inr VUndefined) ls s)"

fun chunk_loop :: "nat \<Rightarrow> nat \<Rightarrow> jsstring \<Rightarrow> nat \<Rightarrow> jsstring list" where
  "chunk_loop 0 ofs str sz = []"
| "chunk_loop (Suc n) ofs str sz =
     take sz (drop ofs str) # chunk_loop n (ofs + sz) str sz"

definition chunkSubstr :: "jsstring \<Rightarrow> nat \<Rightarrow> jsstring list" where
  "chunkSubstr str sz = chunk_loop ((length str + sz - 1) div sz) 0 str sz"

text \<open>\<open>write\<close> takes a string: the chunks are cut with \<open>substr\<close>, by code units.
  A Buffer or an array has no \<open>substr\<close>, the call throws for it outside the bridge
  mode, and such payloads are not among the requests below.\<close>

definition uart_write :: "jsstring \<Rightarrow> session \<Rightarrow> advance" where
  "uart_write buffer s =
     (if mode s = ''uart_bridge'' then Go (Inr VUndefined) [LWrite (Str buffer)] s
      else Go (Inr (VBool True)) (map LWriteBlock (chunkSubstr buffer 16)) s)"

section \<open>Running a chain\<close>

text \<open>A rejection passes every link but the handlers given to \<open>catch\<close> and as the
  second argument of \<open>then\<close>.\<close>

fun on_error :: "link \<Rightarrow> error \<Rightarrow> session \<Rightarrow> advance" where
  "on_error LCatchLog e s = Go (Inr VUndefined) [] s"
| "on_error LCatchEmitError e s =
     (if error_listeners s then Go (Inr VUndefined) [] (s\<lparr>emitted := emitted s @ [NError e]\<rparr>)
      else Go (Inl e) [] s)"
| "on_error LConnected e s =
     Go (Inr VUndefined) []
        (s\<lparr>mode := ''uart_bridge'', emitted := emitted s @ [NConnected]\<rparr>)"
| "on_error LCatchOpen e s =
     Go (Inr VUndefined) []
        (if error_listeners s then s\<lparr>emitted := emitted s @ [NError e]\<rparr> else s)"
| "on_error l e s = Go (Inl e) [] s"

fun on_value :: "nat \<Rightarrow> link \<Rightarrow> jsval \<Rightarrow> session \<Rightarrow> advance" where
  "on_value tid (LWrite d) v s = bp_write tid d s"
| "on_value tid (LExpect d) v s = expect tid d s"
| "on_value tid LSleep v s = Wait OnTimer s"
| "on_value tid LResetConsole v s = reset_console s"
| "on_value tid LInstall v s = Go (Inr VUndefined) [] (s\<lparr>listening := True\<rparr>)"
| "on_value tid LEnterBinmode v s = enter_binmode tid s"
| "on_value tid (LSwitchMode newmode) v s = switch_mode newmode s"
| "on_value tid (LSetMode name) v s = set_mode name s"
| "on_value tid (LConfigPeriph opts) v s = config_periph opts s"
| "on_value tid (LEmitPeripherals code) v s =
     Go (Inr VUndefined) [] (s\<lparr>emitted := emitted s @ [NPeripherals code]\<rparr>)"
| "on_value tid LCatchLog v s = Go (Inr v) [] s"
| "on_value tid (LUartStart options) v s = uart_start options s"
| "on_value tid (LStartBody options) v s = start_body options v s"
| "on_value tid (LSetopts options) v s = setopts options s"
| "on_value tid LReady v s = Go (Inr (VBool True)) [] (s\<lparr>emitted := emitted s @ [NReady]\<rparr>)"
| "on_value tid LCatchEmitError v s = Go (Inr v) [] s"
| "on_value tid (LEchoRx on) v s = echo_rx on s"
| "on_value tid (LSetEcho on) v s = set_echo on s"
| "on_value tid LUartBridge v s = uart_bridge s"
| "on_value tid LSetBridge v s = set_bridge s"
| "on_value tid (LWriteBlock chunk) v s = then_write_block chunk s"
| "on_value tid (LUartWrite buffer) v s = uart_write buffer s"
| "on_value tid LOpen v s = on_open s"
| "on_value tid LConnected v s = Go (Inr (VBool True)) [] (s\<lparr>emitted := emitted s @ [NConnected]\<rparr>)"
| "on_value tid LCatchOpen v s = Go (Inr v) [] s"

definition exec :: "nat \<Rightarrow> link \<Rightarrow> result \<Rightarrow> session \<Rightarrow> advance" where
  "exec tid l r s = (case r of Inl e \<Rightarrow> on_error l e s | Inr v \<Rightarrow> on_value tid l v s)"

text \<open>A bound on the links a link can put in front of the chain, itself counted.\<close>

fun weight :: "link \<Rightarrow> nat" where
  "weight LResetConsole = 3"
| "weight (LSwitchMode newmode) = 8"
| "weight (LConfigPeriph opts) = 5"
| "weight (LStartBody options) = 7"
| "weight (LUartStart options) = 17"
| "weight (LSetopts options) = 17"
| "weight (LEchoRx on) = 4"
| "weight LUartBridge = 3"
| "weight (LWriteBlock chunk) = 5"
| "weight (LUartWrite buffer) = 2 + 5 * length (chunkSubstr buffer 16)"
| "weight LOpen = 8"
| "weight l = 1"

lemma weight_blocks: "sum_list (map (weight \<circ> LWriteBlock) cs) = 5 * length cs"
  by (induction cs) auto

lemma on_error_weight:
  "on_error l e s = Go r' new s' \<Longrightarrow> sum_list (map weight new) < weight l"
  by (cases l) (auto split: if_splits)

lemma on_value_weight:
  "on_value tid l v s = Go r' new s' \<Longrightarrow> sum_list (map weight new) < weight l"
  by (cases l)
     (auto simp: bp_write_def expect_def reset_console_def enter_binmode_def switch_mode_def
        set_mode_def config_periph_def uart_start_def start_body_def setopts_def
        setopts_body_def echo_rx_def set_echo_def uart_bridge_def set_bridge_def
        then_write_block_def write_block_def uart_write_def on_open_def weight_blocks
        Let_def split: if_splits sum.splits)

lemma exec_weight:
  "exec tid l r s = Go r' new s' \<Longrightarrow> sum_list (map weight new) < weight l"
  by (cases r) (auto simp: exec_def dest: on_error_weight on_value_weight)

definition settle :: "result \<Rightarrow> task" where
  "settle r = Settled (case r of Inl e \<Rightarrow> Rejected e | Inr v \<Rightarrow> Fulfilled v)"

text \<open>\<open>run tid r ls s\<close>: the chain \<open>tid\<close> goes through its links \<open>ls\<close> with the
  result \<open>r\<close> so far, until it waits or ends.\<close>

function run :: "nat \<Rightarrow> result \<Rightarrow> link list \<Rightarrow> session \<Rightarrow> session" where
  "run tid r [] s = s\<lparr>tasks := (tasks s)[tid := settle r]\<rparr>"
| "run tid r (l # ls) s =
     (case exec tid l r s of
        Go r' new s' \<Rightarrow> run tid r' (new @ ls) s'
      | Wait w s' \<Rightarrow> s'\<lparr>tasks := (tasks s')[tid := Blocked w ls]\<rparr>)"
  by pat_completeness auto
termination
  by (relation "measure (\<lambda>(tid, r, ls, s). sum_list (map weight ls))")
     (auto dest: exec_weight)

section \<open>Events\<close>

text \<open>
  The session moves by events: a call of a method by the user of the library, a chunk
  of bytes from the port, the port's callback for the oldest unfinished write (with an
  error or without), the timeout of a chain that sleeps in \<open>reset_console\<close>, and a
  tick of the interval timer of a chain that waits in \<open>enter_binmode\<close>. The
  callbacks that an event makes runnable run before the next event.
\<close>

datatype request =
    ROpen | RResetConsole | REnterBinmode | RSwitchMode mode_constants
  | RConfigPeriph periph_options | RWrite jsdata | RExpect jsdata
  | RUartStart uart_options | RSetopts uart_options | REchoRx bool | RUartBridge
  | RWriteBlock jsstring | RUartWrite jsstring

datatype event = Call request | Data buffer | WriteDone "error option" | Timer nat | Tick nat

fun link_of :: "request \<Rightarrow> link" where
  "link_of ROpen = LOpen"
| "link_of RResetConsole = LResetConsole"
| "link_of REnterBinmode = LEnterBinmode"
| "link_of (RSwitchMode newmode) = LSwitchMode newmode"
| "link_of (RConfigPeriph opts) = LConfigPeriph opts"
| "link_of (RWrite d) = LWrite d"
| "link_of (RExpect d) = LExpect d"
| "link_of (RUartStart options) = LUartStart options"
| "link_of (RSetopts options) = LSetopts options"
| "link_of (REchoRx on) = LEchoRx on"
| "link_of RUartBridge = LUartBridge"
| "link_of (RWriteBlock buffer) = LWriteBlock buffer"
| "link_of (RUartWrite buffer) = LUartWrite buffer"

text \<open>A call starts a chain of its own; its number is the next free one. A call of
  \<open>write_block\<close> that returns an Error object in place of a promise is a chain that
  has ended with that object as its value.\<close>

definition call :: "request \<Rightarrow> session \<Rightarrow> session" where
  "call rq s =
     run (length (tasks s)) (Inr VUndefined) [link_of rq]
       (s\<lparr>tasks := tasks s @ [Blocked OnWaiter []]\<rparr>)"

text \<open>The chain whose waiter resolved goes on with the bytes. For the waiter of
  \<open>enter_binmode\<close> the callback for \<open>BBIO1\<close> runs first, and the race is won with
  \<open>true\<close>.\<close>

definition resume :: "nat \<times> buffer \<Rightarrow> session \<Rightarrow> session" where
  "resume rv s =
     (if fst rv < length (tasks s) then
        (case tasks s ! fst rv of
           Blocked OnWaiter ls \<Rightarrow> run (fst rv) (Inr (VBuffer (snd rv))) ls s
         | Blocked (OnProbe n) ls \<Rightarrow> run (fst rv) (Inr (VBool True)) ls (binmode_entered s)
         | _ \<Rightarrow> s)
      else s)"

text \<open>A chunk from the port: the handler, if it is installed, then the chains of the
  promises it resolved, in the order of the resolutions.\<close>

definition deliver :: "buffer \<Rightarrow> session \<Rightarrow> session" where
  "deliver data s =
     (if listening s
      then fold resume (drop (length (resolved s)) (resolved (on_data data s))) (on_data data s)
      else s)"

text \<open>
  The interval callback of \<open>enter_binmode\<close>: it writes a zero byte (nobody waits for
  this write), counts, and past 25 it stops the timer, empties \<open>waiters\<close> and rejects
  the race.
\<close>

definition tick :: "nat \<Rightarrow> session \<Rightarrow> session" where
  "tick tid s =
     (if tid < length (tasks s) then
        (case tasks s ! tid of
           Blocked (OnProbe n) ls \<Rightarrow>
             (let s1 = s\<lparr>sent := sent s @ [to_buffer (Num 0x00)],
                         callbacks := callbacks s @ [None]\<rparr>;
                  count = n + 1
              in if count > 25
                 then run tid (Inl CannotAcquire) ls (s1\<lparr>waiters := []\<rparr>)
                 else s1\<lparr>tasks := (tasks s1)[tid := Blocked (OnProbe count) ls]\<rparr>)
         | _ \<Rightarrow> s)
      else s)"

definition write_done :: "error option \<Rightarrow> session \<Rightarrow> session" where
  "write_done err s =
     (case callbacks s of
        [] \<Rightarrow> s
      | cb # rest \<Rightarrow>
          (let s1 = s\<lparr>callbacks := rest\<rparr>
           in case cb of
                None \<Rightarrow> s1
              | Some tid \<Rightarrow>
                  (if tid < length (tasks s1) then
                     (case tasks s1 ! tid of
                        Blocked OnWrite ls \<Rightarrow>
                          run tid (case err of None \<Rightarrow> Inr (VBool True) | Some e \<Rightarrow> Inl e) ls s1
                      | _ \<Rightarrow> s1)
                   else s1)))"

definition timeout :: "nat \<Rightarrow> session \<Rightarrow> session" where
  "timeout tid s =
     (if tid < length (tasks s) then
        (case tasks s ! tid of
           Blocked OnTimer ls \<Rightarrow> run tid (Inr (VBool True)) ls s
         | _ \<Rightarrow> s)
      else s)"

fun step :: "event \<Rightarrow> session \<Rightarrow> session" where
  "step (Call rq) s = call rq s"
| "step (Data d) s = deliver d s"
| "step (WriteDone err) s = write_done err s"
| "step (Timer tid) s = timeout tid s"
| "step (Tick tid) s = tick tid s"

definition steps :: "event list \<Rightarrow> session \<Rightarrow> session" where
  "steps evs s = fold step evs s"

section \<open>Notions for the statements\<close>

text \<open>
  One pass of the loop over waiters listed oldest first, as three functions of the
  waiters and the buffer: the waiters that stay, the resolutions, and the buffer left.
\<close>

fun kept :: "(nat \<times> buffer) list \<Rightarrow> buffer \<Rightarrow> (nat \<times> buffer) list" where
  "kept [] b = []"
| "kept (w # ws) b =
     (case waiter_fn (snd w) b of None \<Rightarrow> w # kept ws b | Some (v, b') \<Rightarrow> kept ws b')"

fun hits :: "(nat \<times> buffer) list \<Rightarrow> buffer \<Rightarrow> (nat \<times> buffer) list" where
  "hits [] b = []"
| "hits (w # ws) b =
     (case waiter_fn (snd w) b of
        None \<Rightarrow> hits ws b
      | Some (v, b') \<Rightarrow> (fst w, v) # hits ws b')"

fun rest :: "(nat \<times> buffer) list \<Rightarrow> buffer \<Rightarrow> buffer" where
  "rest [] b = b"
| "rest (w # ws) b =
     (case waiter_fn (snd w) b of None \<Rightarrow> rest ws b | Some (v, b') \<Rightarrow> rest ws b')"

text \<open>The bytes that the waiters resolved with between two states.\<close>

definition taken :: "session \<Rightarrow> session \<Rightarrow> nat" where
  "taken s s' = sum_list (map (length \<circ> snd) (drop (length (resolved s)) (resolved s')))"

text \<open>A chain that waits for a waiter that is not in the array.\<close>

definition dropped :: "nat \<Rightarrow> link list \<Rightarrow> session \<Rightarrow> bool" where
  "dropped t ls s \<longleftrightarrow>
     t < length (tasks s) \<and> tasks s ! t = Blocked OnWaiter ls \<and> t \<notin> fst ` set (waiters s)"

text \<open>Links and waiting chains that cannot change the mode of a bridged session.\<close>

fun quiet_link :: "link \<Rightarrow> bool" where
  "quiet_link (LSetMode name) = (name = ''uart_bridge'')"
| "quiet_link l = True"

fun quiet_task :: "task \<Rightarrow> bool" where
  "quiet_task (Blocked (OnProbe n) ls) = False"
| "quiet_task (Blocked w ls) = list_all quiet_link ls"
| "quiet_task (Settled oc) = True"

definition bridged :: "session \<Rightarrow> bool" where
  "bridged s \<longleftrightarrow> mode s = ''uart_bridge'' \<and> list_all quiet_task (tasks s)"

section \<open>Facts about the stream matcher\<close>


lemmas str_defs = js_def utf8_unit_def utf8_pair_def high_surrogate_def low_surrogate_def




lemma differs_take:
  "n \<le> length d \<Longrightarrow> n \<le> length r \<Longrightarrow> differs n d r = (take n d \<noteq> take n r)"
  by (induction n) (auto simp: take_Suc_conv_app_nth)

text \<open>The waiter without its loop: an empty pattern takes all the bytes, another
  pattern must be a prefix of the bytes.\<close>

lemma waiter_fn_eq:
  "waiter_fn d r =
     (if d = [] then Some (r, [])
      else if take (length d) r = d then Some (d, drop (length d) r) else None)"
proof (cases "length r < length d")
  case True
  then have "take (length d) r \<noteq> d"
    by (metis length_take min.absorb1 less_imp_le_nat nat_neq_iff)
  with True show ?thesis by (auto simp: waiter_fn_def)
next
  case False
  then have "differs (length d) d r = (d \<noteq> take (length d) r)"
    by (simp add: differs_take)
  with False show ?thesis by (auto simp: waiter_fn_def)
qed

text \<open>A waiter that resolves takes the bytes it resolves with from the front of the
  buffer, and these are its own pattern unless the pattern is empty.\<close>

lemma waiter_fn_Some:
  "waiter_fn d r = Some (v, b') \<Longrightarrow> r = v @ b' \<and> (d \<noteq> [] \<longrightarrow> v = d)"
  by (auto simp: waiter_fn_eq split: if_splits) (metis append_take_drop_id)

lemma serve_scan:
  "waiters s = pre @ post \<Longrightarrow>
   serve (length pre) s =
     s\<lparr>waiters := rev (kept (rev pre) (data_buffer s)) @ post,
       resolved := resolved s @ hits (rev pre) (data_buffer s),
       data_buffer := rest (rev pre) (data_buffer s)\<rparr>"
proof (induction pre arbitrary: s post rule: rev_induct)
  case Nil
  then show ?case by simp
next
  case (snoc w pre)
  show ?case
  proof (cases "waiter_fn (snd w) (data_buffer s)")
    case None
    with snoc.prems have "call_waiter (length pre) s = s"
      by (simp add: call_waiter_def)
    moreover have "waiters s = pre @ (w # post)" using snoc.prems by simp
    ultimately show ?thesis using snoc.IH[of s "w # post"] None by simp
  next
    case (Some a)
    obtain v b' where a: "a = (v, b')" by (cases a)
    let ?s' = "s\<lparr>waiters := pre @ post, resolved := resolved s @ [(fst w, v)],
                 data_buffer := b'\<rparr>"
    have "call_waiter (length pre) s = ?s'"
      using snoc.prems Some a by (simp add: call_waiter_def splice1_def)
    moreover have "waiters ?s' = pre @ post" by simp
    ultimately show ?thesis using snoc.IH[of ?s' post] Some a by simp
  qed
qed

lemma on_data_scan:
  "on_data d s =
     (if waiters s = [] then s
      else s\<lparr>waiters := rev (kept (rev (waiters s)) (data_buffer s @ d)),
             resolved := resolved s @ hits (rev (waiters s)) (data_buffer s @ d),
             data_buffer := rest (rev (waiters s)) (data_buffer s @ d)\<rparr>)"
  using serve_scan[of "s\<lparr>data_buffer := data_buffer s @ d\<rparr>" "waiters s" "[]"]
  by (simp add: on_data_def)

lemma rest_hits: "rest ws b = drop (sum_list (map (length \<circ> snd) (hits ws b))) b"
proof (induction ws arbitrary: b)
  case Nil
  then show ?case by simp
next
  case (Cons w ws)
  show ?case
  proof (cases "waiter_fn (snd w) b")
    case None
    then show ?thesis using Cons.IH by simp
  next
    case (Some a)
    obtain v b' where a: "a = (v, b')" by (cases a)
    with Some have "b = v @ b'" by (simp add: waiter_fn_Some)
    then show ?thesis using Some a Cons.IH[of b'] by (simp add: add.commute)
  qed
qed

section \<open>Facts about chains\<close>

declare run.simps [simp del]

lemmas method_defs =
  bp_write_def expect_def reset_console_def enter_binmode_def switch_mode_def
  set_mode_def config_periph_def uart_start_def start_body_def setopts_def
  setopts_body_def echo_rx_def set_echo_def uart_bridge_def set_bridge_def
  then_write_block_def write_block_def uart_write_def on_open_def emit_mode_def

text \<open>Only the handler of \<open>data\<close> touches the buffer and resolves waiters.\<close>

lemma on_error_frame:
  "on_error l e s = Go r' new s' \<Longrightarrow>
     data_buffer s' = data_buffer s \<and> resolved s' = resolved s"
  by (cases l) (auto split: if_splits)

lemma on_error_no_wait: "on_error l e s \<noteq> Wait w s'"
  by (cases l) auto

lemma on_value_Go_frame:
  "on_value tid l v s = Go r' new s' \<Longrightarrow>
     data_buffer s' = data_buffer s \<and> resolved s' = resolved s"
  by (cases l) (auto simp: method_defs Let_def split: if_splits sum.splits)

lemma on_value_Wait_frame:
  "on_value tid l v s = Wait w s' \<Longrightarrow>
     data_buffer s' = data_buffer s \<and> resolved s' = resolved s"
  by (cases l) (auto simp: method_defs Let_def split: if_splits sum.splits)

lemma exec_Go_frame:
  "exec tid l r s = Go r' new s' \<Longrightarrow>
     data_buffer s' = data_buffer s \<and> resolved s' = resolved s"
  by (cases r) (auto simp: exec_def dest: on_error_frame on_value_Go_frame)

lemma exec_Wait_frame:
  "exec tid l r s = Wait w s' \<Longrightarrow>
     data_buffer s' = data_buffer s \<and> resolved s' = resolved s"
  by (cases r) (auto simp: exec_def on_error_no_wait dest: on_value_Wait_frame)

lemma run_frame:
  "data_buffer (run tid r ls s) = data_buffer s \<and> resolved (run tid r ls s) = resolved s"
proof (induction tid r ls s rule: run.induct)
  case (1 tid r s)
  then show ?case by (simp add: run.simps)
next
  case (2 tid r l ls s)
  show ?case
  proof (cases "exec tid l r s")
    case (Go r' new s')
    with 2 exec_Go_frame[OF Go] show ?thesis by (simp add: run.simps)
  next
    case (Wait w s')
    with exec_Wait_frame[OF Wait] show ?thesis by (simp add: run.simps)
  qed
qed

lemma resume_frame:
  "data_buffer (resume rv s) = data_buffer s \<and> resolved (resume rv s) = resolved s"
  by (auto simp: resume_def run_frame binmode_entered_def emit_mode_def
      split: task.splits wait.splits)

lemma fold_resume_frame:
  "data_buffer (fold resume rvs s) = data_buffer s \<and> resolved (fold resume rvs s) = resolved s"
  by (induction rvs arbitrary: s) (simp_all add: resume_frame)

lemma deliver_frame:
  "data_buffer (deliver d s) = (if listening s then data_buffer (on_data d s) else data_buffer s)"
  "resolved (deliver d s) = (if listening s then resolved (on_data d s) else resolved s)"
  by (simp_all add: deliver_def fold_resume_frame)

lemma other_frame:
  "data_buffer (call rq s) = data_buffer s \<and> resolved (call rq s) = resolved s"
  "data_buffer (tick tid s) = data_buffer s \<and> resolved (tick tid s) = resolved s"
  "data_buffer (write_done err s) = data_buffer s \<and> resolved (write_done err s) = resolved s"
  "data_buffer (timeout tid s) = data_buffer s \<and> resolved (timeout tid s) = resolved s"
  by (auto simp: call_def tick_def write_done_def timeout_def run_frame Let_def
      split: task.splits wait.splits list.splits option.splits)

text \<open>A call of \<open>expect\<close> by the user, and several in a row.\<close>

lemma call_expect:
  "call (RExpect a) s =
     s\<lparr>waiters := (length (tasks s), to_buffer a) # waiters s,
       tasks := tasks s @ [Blocked OnWaiter []]\<rparr>"
  by (simp add: call_def exec_def expect_def run.simps)

lemma upt_shift: "[n..<n + Suc k] = n # [Suc n..<Suc n + k]"
  by (simp add: upt_conv_Cons del: upt_Suc)

lemma expects_eq:
  "steps (map (\<lambda>a. Call (RExpect a)) as) s =
     s\<lparr>waiters := rev (zip [length (tasks s)..<length (tasks s) + length as]
                          (map to_buffer as)) @ waiters s,
       tasks := tasks s @ replicate (length as) (Blocked OnWaiter [])\<rparr>"
proof (induction as arbitrary: s)
  case Nil
  then show ?case by (simp add: steps_def)
next
  case (Cons a as)
  have "steps (map (\<lambda>a. Call (RExpect a)) (a # as)) s =
        steps (map (\<lambda>a. Call (RExpect a)) as) (call (RExpect a) s)"
    by (simp add: steps_def)
  also have "\<dots> =
      s\<lparr>waiters := rev (zip [Suc (length (tasks s))..<Suc (length (tasks s)) + length as]
                          (map to_buffer as)) @ ((length (tasks s), to_buffer a) # waiters s),
        tasks := tasks s @ Blocked OnWaiter [] # replicate (length as) (Blocked OnWaiter [])\<rparr>"
    by (simp add: Cons.IH call_expect del: upt_Suc)
  also have "\<dots> =
      s\<lparr>waiters := rev (zip [length (tasks s)..<length (tasks s) + length (a # as)]
                          (map to_buffer (a # as))) @ waiters s,
        tasks := tasks s @ replicate (length (a # as)) (Blocked OnWaiter [])\<rparr>"
    using upt_shift[of "length (tasks s)" "length as"] by (simp del: upt_Suc)
  finally show ?case .
qed

text \<open>The patterns of the waiters, in order, as the buffer: each waiter takes its own
  pattern, provided that an empty pattern comes last.\<close>

lemma scan_concat:
  "length ids = length ps \<Longrightarrow> [] \<notin> set (butlast ps) \<Longrightarrow>
   hits (zip ids ps) (concat ps) = zip ids ps \<and> kept (zip ids ps) (concat ps) = [] \<and>
   rest (zip ids ps) (concat ps) = []"
proof (induction ps arbitrary: ids)
  case Nil
  then show ?case by simp
next
  case (Cons p ps)
  then obtain i ids' where ids: "ids = i # ids'" "length ids' = length ps"
    by (cases ids) auto
  show ?case
  proof (cases "ps = []")
    case True
    then show ?thesis using ids by (simp add: waiter_fn_eq)
  next
    case False
    with Cons.prems have "p \<noteq> []" "[] \<notin> set (butlast ps)" by auto
    then show ?thesis using ids Cons.IH[of ids'] by (simp add: waiter_fn_eq)
  qed
qed

lemma resume_waiting:
  "tid < length (tasks s) \<Longrightarrow> tasks s ! tid = Blocked OnWaiter [] \<Longrightarrow>
   resume (tid, v) s = s\<lparr>tasks := (tasks s)[tid := Settled (Fulfilled (VBuffer v))]\<rparr>"
  by (simp add: resume_def run.simps settle_def)

lemma fold_resume_waiting:
  "tasks s = ts @ replicate (length ps) (Blocked OnWaiter []) \<Longrightarrow>
   fold resume (zip [length ts..<length ts + length ps] ps) s =
     s\<lparr>tasks := ts @ map (\<lambda>p. Settled (Fulfilled (VBuffer p))) ps\<rparr>"
proof (induction ps arbitrary: ts s)
  case Nil
  then show ?case by simp
next
  case (Cons p ps)
  let ?t = "Settled (Fulfilled (VBuffer p))"
  let ?s' = "s\<lparr>tasks := (ts @ [?t]) @ replicate (length ps) (Blocked OnWaiter [])\<rparr>"
  have "resume (length ts, p) s = ?s'"
    using Cons.prems by (simp add: resume_waiting)
  moreover have "fold resume (zip [length (ts @ [?t])..<length (ts @ [?t]) + length ps] ps) ?s' =
        ?s'\<lparr>tasks := (ts @ [?t]) @ map (\<lambda>p. Settled (Fulfilled (VBuffer p))) ps\<rparr>"
    by (rule Cons.IH) simp
  ultimately show ?case
    using upt_shift[of "length ts" "length ps"] by (simp del: upt_Suc)
qed

lemma expects_then_data:
  assumes "listening s" and "waiters s = []" and "data_buffer s = []"
    and "[] \<notin> set (butlast (map to_buffer as))"
  shows "steps (map (\<lambda>a. Call (RExpect a)) as @ [Data (concat (map to_buffer as))]) s =
           s\<lparr>resolved := resolved s @
                 zip [length (tasks s)..<length (tasks s) + length as] (map to_buffer as),
             tasks := tasks s @ map (\<lambda>a. Settled (Fulfilled (VBuffer (to_buffer a)))) as\<rparr>"
proof (cases "as = []")
  case True
  then show ?thesis using assms by (simp add: steps_def deliver_def on_data_def)
next
  case False
  let ?ids = "[length (tasks s)..<length (tasks s) + length as]"
  let ?s1 = "steps (map (\<lambda>a. Call (RExpect a)) as) s"
  let ?d = "concat (map to_buffer as)"
  have len: "length ?ids = length (map to_buffer as)" by simp
  have s1: "?s1 = s\<lparr>waiters := rev (zip ?ids (map to_buffer as)),
                    tasks := tasks s @ replicate (length as) (Blocked OnWaiter [])\<rparr>"
    using assms(2) by (simp add: expects_eq)
  have ne: "waiters ?s1 \<noteq> []" using False by (simp add: s1)
  have od: "on_data ?d ?s1 =
      s\<lparr>resolved := resolved s @ zip ?ids (map to_buffer as),
        tasks := tasks s @ replicate (length (map to_buffer as)) (Blocked OnWaiter [])\<rparr>"
    using scan_concat[OF len assms(4)] assms(2,3) ne
    by (simp add: on_data_scan) (simp add: s1)
  have "steps (map (\<lambda>a. Call (RExpect a)) as @ [Data ?d]) s = deliver ?d ?s1"
    by (simp add: steps_def)
  also have "\<dots> = fold resume (zip ?ids (map to_buffer as)) (on_data ?d ?s1)"
    using assms(1) by (simp add: deliver_def od) (simp add: s1)
  also have "\<dots> = (on_data ?d ?s1)\<lparr>tasks := tasks s @
        map (\<lambda>p. Settled (Fulfilled (VBuffer p))) (map to_buffer as)\<rparr>"
    using fold_resume_waiting[of "on_data ?d ?s1" "tasks s" "map to_buffer as"]
    by (simp add: od)
  finally show ?thesis by (simp add: od comp_def)
qed

text \<open>One waiter with a pattern that is not empty, and the bytes coming one by one.\<close>

lemma deliver_idle: "waiters s = [] \<Longrightarrow> deliver d s = s"
  by (simp add: deliver_def on_data_def)

lemma bytes_idle: "waiters s = [] \<Longrightarrow> steps (map (\<lambda>x. Data [x]) xs) s = s"
  by (induction xs) (simp_all add: steps_def deliver_idle)

lemma deliver_single:
  assumes "listening t" and "waiters t = [(n, p)]" and "p \<noteq> []"
    and "n < length (tasks t)" and "tasks t ! n = Blocked OnWaiter []"
  shows "deliver d t =
     (if take (length p) (data_buffer t @ d) = p
      then t\<lparr>waiters := [], resolved := resolved t @ [(n, p)],
             data_buffer := drop (length p) (data_buffer t @ d),
             tasks := (tasks t)[n := Settled (Fulfilled (VBuffer p))]\<rparr>
      else t\<lparr>data_buffer := data_buffer t @ d\<rparr>)"
  using assms by (simp add: deliver_def on_data_scan waiter_fn_eq resume_waiting)

lemma take_append_fixed:
  "take (length p) u = p \<Longrightarrow> take (length p) (u @ v) = p"
  by (metis append_eq_conv_conj append_take_drop_id append.assoc)

lemma bytes_single:
  assumes "listening t" and "waiters t = [(n, p)]" and "p \<noteq> []"
    and "n < length (tasks t)" and "tasks t ! n = Blocked OnWaiter []"
    and "take (length p) (data_buffer t) \<noteq> p"
  shows "resolved (steps (map (\<lambda>x. Data [x]) xs) t) =
           resolved t @ (if take (length p) (data_buffer t @ xs) = p then [(n, p)] else []) \<and>
         tasks (steps (map (\<lambda>x. Data [x]) xs) t) =
           (if take (length p) (data_buffer t @ xs) = p
            then (tasks t)[n := Settled (Fulfilled (VBuffer p))] else tasks t)"
  using assms
proof (induction xs arbitrary: t)
  case Nil
  then show ?case by (simp add: steps_def)
next
  case (Cons x xs)
  have st: "steps (map (\<lambda>x. Data [x]) (x # xs)) t =
            steps (map (\<lambda>x. Data [x]) xs) (deliver [x] t)"
    by (simp add: steps_def)
  show ?case
  proof (cases "take (length p) (data_buffer t @ [x]) = p")
    case True
    then have all: "take (length p) (data_buffer t @ x # xs) = p"
      using take_append_fixed[of p "data_buffer t @ [x]" xs] by simp
    let ?t' = "t\<lparr>waiters := [], resolved := resolved t @ [(n, p)],
             data_buffer := drop (length p) (data_buffer t @ [x]),
             tasks := (tasks t)[n := Settled (Fulfilled (VBuffer p))]\<rparr>"
    have d: "deliver [x] t = ?t'"
      using deliver_single[OF Cons.prems(1-5), of "[x]"] True by (simp only: if_True simp_thms)
    have "steps (map (\<lambda>x. Data [x]) xs) ?t' = ?t'"
      by (rule bytes_idle) simp
    then have "steps (map (\<lambda>x. Data [x]) (x # xs)) t = ?t'"
      by (simp only: st d)
    then show ?thesis using all by (simp only: if_True) simp
  next
    case False
    let ?t' = "t\<lparr>data_buffer := data_buffer t @ [x]\<rparr>"
    have d: "deliver [x] t = ?t'"
      using deliver_single[OF Cons.prems(1-5), of "[x]"] False by (simp only: if_False simp_thms)
    have "resolved (steps (map (\<lambda>x. Data [x]) xs) ?t') =
           resolved ?t' @ (if take (length p) (data_buffer ?t' @ xs) = p then [(n, p)] else []) \<and>
         tasks (steps (map (\<lambda>x. Data [x]) xs) ?t') =
           (if take (length p) (data_buffer ?t' @ xs) = p
            then (tasks ?t')[n := Settled (Fulfilled (VBuffer p))] else tasks ?t')"
      using Cons.prems False by (intro Cons.IH) simp_all
    moreover have "steps (map (\<lambda>x. Data [x]) (x # xs)) t = steps (map (\<lambda>x. Data [x]) xs) ?t'"
      by (simp only: st d)
    ultimately show ?thesis by simp
  qed
qed

lemmas eval_defs =
  steps_def call_def deliver_def tick_def write_done_def timeout_def resume_def
  run.simps exec_def settle_def on_data_def call_waiter_def waiter_fn_def splice1_def
  binmode_entered_def new_session_def Let_def str_defs

section \<open>The claims about the stream matcher\<close>

subsection \<open>C1: matchers resolve in registration order\<close>

text \<open>
  C1, as stated, fails when the empty pattern is registered before another one: the
  empty pattern is the pattern of \<open>expect('')\<close>, whose waiter takes all the bytes
  received. Registered first, with the pattern \<open>[1]\<close> second, and fed the
  concatenation \<open>[1]\<close> of the two, it resolves with the byte 1 (one byte, not the
  zero bytes of its own pattern), and the second waiter stays pending.
\<close>

theorem C1_empty_pattern_first_counterexample:
  "resolved (steps [Call (RExpect (Str (js ''''))), Call (RExpect (Arr [1])), Data [1]]
              (new_session\<lparr>listening := True\<rparr>)) = [(0, [1])] \<and>
   waiters (steps [Call (RExpect (Str (js ''''))), Call (RExpect (Arr [1])), Data [1]]
              (new_session\<lparr>listening := True\<rparr>)) = [(1, [1])] \<and>
   concat (map to_buffer [Str (js ''''), Arr [1]]) = [1]"
  by (simp add: eval_defs method_defs)

text \<open>
  C1 (amended): in a session with the handler installed, no waiter pending and an
  empty buffer, let matchers be registered by calls of \<open>expect\<close> with any arguments
  such that no pattern but possibly the last is empty, and let the concatenation of
  their patterns, in registration order, arrive as one chunk. Then every matcher is
  resolved, in registration order and each with its own pattern, every promise is
  fulfilled with its pattern, no waiter is left and the buffer is empty again: each
  waiter has taken the length of its own pattern from the front (lemma
  \<open>waiter_fn_Some\<close>).
\<close>

theorem C1_resolved_in_registration_order:
  assumes "listening s" and "waiters s = []" and "data_buffer s = []"
    and "[] \<notin> set (butlast (map to_buffer as))"
  shows "let s' = steps (map (\<lambda>a. Call (RExpect a)) as @
                          [Data (concat (map to_buffer as))]) s
         in resolved s' = resolved s @
              zip [length (tasks s)..<length (tasks s) + length as] (map to_buffer as) \<and>
            tasks s' = tasks s @ map (\<lambda>a. Settled (Fulfilled (VBuffer (to_buffer a)))) as \<and>
            waiters s' = [] \<and> data_buffer s' = []"
  using assms by (simp add: expects_then_data Let_def)

text \<open>Three matchers, for \<open>AB\<close>, for the byte 1 and for the empty pattern, fed the
  three bytes.\<close>

theorem C1_resolved_in_registration_order_witness:
  "listening (new_session\<lparr>listening := True\<rparr>) \<and>
   [] \<notin> set (butlast (map to_buffer [Str (js ''AB''), Num 1, Str (js '''')])) \<and>
   resolved (steps [Call (RExpect (Str (js ''AB''))), Call (RExpect (Num 1)),
                    Call (RExpect (Str (js ''''))), Data [65, 66, 1]]
              (new_session\<lparr>listening := True\<rparr>)) = [(0, [65, 66]), (1, [1]), (2, [])] \<and>
   tasks (steps [Call (RExpect (Str (js ''AB''))), Call (RExpect (Num 1)),
                 Call (RExpect (Str (js ''''))), Data [65, 66, 1]]
              (new_session\<lparr>listening := True\<rparr>)) =
     [Settled (Fulfilled (VBuffer [65, 66])), Settled (Fulfilled (VBuffer [1])),
      Settled (Fulfilled (VBuffer []))]"
  using C1_resolved_in_registration_order
          [of "new_session\<lparr>listening := True\<rparr>" "[Str (js ''AB''), Num 1, Str (js '''')]"]
  by (simp add: new_session_def Let_def str_defs)

subsection \<open>C9: growth of the buffer\<close>

text \<open>
  C9, as stated, fails: the handler appends a chunk only under the test
  \<open>waiters.length > 0\<close>. A chunk that arrives while no waiter is pending is not put
  into the buffer.
\<close>

theorem C9_chunk_without_waiter_counterexample:
  "waiters (new_session\<lparr>listening := True\<rparr>) = [] \<and>
   data_buffer (step (Data [1]) (new_session\<lparr>listening := True\<rparr>)) = [] \<and>
   data_buffer (step (Data [1]) (new_session\<lparr>listening := True\<rparr>)) \<noteq>
     data_buffer (new_session\<lparr>listening := True\<rparr>) @ [1]"
  by (simp add: eval_defs)

text \<open>
  C9 (amended): a chunk that arrives while the handler is installed and a waiter is
  pending is appended to the buffer, and what is left after the event is the buffer
  with the chunk, less the bytes at its front that the waiters resolved with in this
  event (none if none resolved). A chunk that arrives while no waiter is pending
  leaves the buffer as it was, and so does every event that is not a chunk.
\<close>

theorem C9_buffer_changes:
  "data_buffer (step ev s) =
     (case ev of
        Data d \<Rightarrow>
          if listening s \<and> waiters s \<noteq> []
          then drop (taken s (step ev s)) (data_buffer s @ d)
          else data_buffer s
      | _ \<Rightarrow> data_buffer s)"
  by (cases ev) (auto simp: other_frame deliver_frame on_data_scan taken_def rest_hits)

subsection \<open>C6: independence of the chunk boundaries\<close>

text \<open>
  C6, as stated, fails, in two ways. The waiter of the empty pattern resolves with
  all that the buffer holds when it is served: with the first byte when the bytes 1, 2
  come one by one, with both when they come together. And each chunk is one pass over
  the waiters: with a first waiter for the byte 2 and a second for the byte 1, the
  bytes 1, 2 one by one resolve the second and then the first, and as one chunk they
  resolve the second only (the first is served before the byte 1 is taken away, and
  not again).
\<close>

theorem C6_chunking_counterexample:
  "resolved (steps [Call (RExpect (Str (js ''''))), Data [1], Data [2]]
              (new_session\<lparr>listening := True\<rparr>)) = [(0, [1])] \<and>
   resolved (steps [Call (RExpect (Str (js ''''))), Data [1, 2]]
              (new_session\<lparr>listening := True\<rparr>)) = [(0, [1, 2])] \<and>
   resolved (steps [Call (RExpect (Num 2)), Call (RExpect (Num 1)), Data [1], Data [2]]
              (new_session\<lparr>listening := True\<rparr>)) = [(1, [1]), (0, [2])] \<and>
   resolved (steps [Call (RExpect (Num 2)), Call (RExpect (Num 1)), Data [1, 2]]
              (new_session\<lparr>listening := True\<rparr>)) = [(1, [1])]"
  by (simp add: eval_defs method_defs)

text \<open>
  C6 (amended): in a session with the handler installed, no waiter pending and an
  empty buffer, let one matcher be registered, with a pattern that is not empty. Then
  for every sequence of chunks, feeding its bytes one at a time and feeding them as
  one chunk give the same resolutions and the same promises: the matcher is resolved,
  with its pattern, exactly when the pattern is a prefix of the bytes.
\<close>

theorem C6_single_matcher_chunking:
  assumes "listening s" and "waiters s = []" and "data_buffer s = []"
    and "to_buffer a \<noteq> []"
  shows "resolved (steps (Call (RExpect a) # map (\<lambda>x. Data [x]) (concat cs)) s) =
           resolved (steps [Call (RExpect a), Data (concat cs)] s) \<and>
         tasks (steps (Call (RExpect a) # map (\<lambda>x. Data [x]) (concat cs)) s) =
           tasks (steps [Call (RExpect a), Data (concat cs)] s) \<and>
         resolved (steps [Call (RExpect a), Data (concat cs)] s) =
           resolved s @ (if take (length (to_buffer a)) (concat cs) = to_buffer a
                         then [(length (tasks s), to_buffer a)] else [])"
proof -
  let ?t = "call (RExpect a) s"
  let ?p = "to_buffer a"
  let ?n = "length (tasks s)"
  have t: "?t = s\<lparr>waiters := [(?n, ?p)], tasks := tasks s @ [Blocked OnWaiter []]\<rparr>"
    using assms(2) by (simp add: call_expect)
  have 1: "listening ?t" "waiters ?t = [(?n, ?p)]" "?n < length (tasks ?t)"
    "tasks ?t ! ?n = Blocked OnWaiter []" "take (length ?p) (data_buffer ?t) \<noteq> ?p"
    "data_buffer ?t = []" "resolved ?t = resolved s"
    using assms by (simp_all add: t)
  have whole: "steps [Call (RExpect a), Data (concat cs)] s = deliver (concat cs) ?t"
    by (simp add: steps_def)
  have bytes: "steps (Call (RExpect a) # map (\<lambda>x. Data [x]) (concat cs)) s =
               steps (map (\<lambda>x. Data [x]) (concat cs)) ?t"
    by (simp add: steps_def)
  show ?thesis
    using bytes_single[OF 1(1,2) assms(4) 1(3,4,5), of "concat cs"]
      deliver_single[OF 1(1,2) assms(4) 1(3,4), of "concat cs"] 1(6,7)
    by (simp add: whole bytes)
qed

text \<open>A matcher for \<open>AB\<close> and the chunks \<open>A\<close>, \<open>BC\<close>.\<close>

theorem C6_single_matcher_chunking_witness:
  "listening (new_session\<lparr>listening := True\<rparr>) \<and> to_buffer (Str (js ''AB'')) \<noteq> [] \<and>
   resolved (steps [Call (RExpect (Str (js ''AB''))), Data [65], Data [66], Data [67]]
              (new_session\<lparr>listening := True\<rparr>)) = [(0, [65, 66])] \<and>
   resolved (steps [Call (RExpect (Str (js ''AB''))), Data [65, 66, 67]]
              (new_session\<lparr>listening := True\<rparr>)) = [(0, [65, 66])]"
  using C6_single_matcher_chunking
          [of "new_session\<lparr>listening := True\<rparr>" "Str (js ''AB'')" "[[65], [66, 67]]"]
  by (simp add: new_session_def str_defs)

subsection \<open>C3: textual patterns\<close>

text \<open>
  C3: the code does not do what the claim says. A regular expression passed to
  \<open>expect\<close> is first turned into a Buffer, of the single byte 0, so the waiter never
  searches the text: the branch for a RegExp is there in the waiter but cannot be
  reached. A string is matched as an exact prefix. With noise before the marker,
  here \<open>xx\<close> before \<open>BBIO1\<close>, neither resolves: the promise stays pending and the
  bytes stay in the buffer.
\<close>

theorem C3_textual_pattern_not_searched:
  "waiters (call (RExpect (Rx r)) s) = (length (tasks s), [0]) # waiters s \<and>
   resolved (steps [Call (RExpect (Rx ''BBIO1'')), Data (to_buffer (Str (js ''xxBBIO1'')))]
      (new_session\<lparr>listening := True\<rparr>)) = [] \<and>
   tasks (steps [Call (RExpect (Rx ''BBIO1'')), Data (to_buffer (Str (js ''xxBBIO1'')))]
      (new_session\<lparr>listening := True\<rparr>)) = [Blocked OnWaiter []] \<and>
   data_buffer (steps [Call (RExpect (Rx ''BBIO1'')), Data (to_buffer (Str (js ''xxBBIO1'')))]
      (new_session\<lparr>listening := True\<rparr>)) = to_buffer (Str (js ''xxBBIO1'')) \<and>
   resolved (steps [Call (RExpect (Str (js ''BBIO1''))), Data (to_buffer (Str (js ''xxBBIO1'')))]
      (new_session\<lparr>listening := True\<rparr>)) = [] \<and>
   tasks (steps [Call (RExpect (Str (js ''BBIO1''))), Data (to_buffer (Str (js ''xxBBIO1'')))]
      (new_session\<lparr>listening := True\<rparr>)) = [Blocked OnWaiter []]"
  by (simp add: eval_defs method_defs)

section \<open>The claims about the modes\<close>

subsection \<open>C2: the command byte of \<open>config_periph\<close>\<close>

lemma periph_bits:
  "0x80 OR push_bit 6 (b2i a) OR push_bit 5 (b2i b) OR push_bit 4 (b2i c)
        OR push_bit 3 (b2i d) OR b2i (b2i e < 2) OR push_bit 1 (b2i f) OR b2i g =
   0x81 + 64 * b2i a + 32 * b2i b + 16 * b2i c + 8 * b2i d + 2 * b2i f"
  by (cases a; cases b; cases c; cases d; cases e; cases f; cases g; simp add: b2i_def)

text \<open>
  C2: the code does not do what the claim says. The term for the flag \<open>clk\<close> is
  the comparison \<open>o.clk < 2\<close>, not the shift \<open>o.clk << 2\<close> of the other flags; it is
  true for both values of the flag, so bit 0 of the byte is always set and bit 2
  never. The byte is \<open>0x81\<close> plus the bits of \<open>power\<close>, \<open>pullups\<close>, \<open>aux\<close>,
  \<open>mosi\<close> and \<open>miso\<close>, whatever \<open>clk\<close> and \<open>cs\<close> are: \<open>0x81\<close> for no options
  (not \<open>0x80\<close>) and for \<open>clk\<close> alone (not \<open>0x84\<close>). The byte for \<open>power\<close> and
  \<open>cs\<close> is \<open>0xC1\<close>, as the claim says.
\<close>

theorem C2_command_byte_ignores_clk_and_cs:
  "periph_code opts =
     0x81 + 64 * b2i (flag (p_power opts)) + 32 * b2i (flag (p_pullups opts))
          + 16 * b2i (flag (p_aux opts)) + 8 * b2i (flag (p_mosi opts))
          + 2 * b2i (flag (p_miso opts)) \<and>
   sent (call (RConfigPeriph opts) s) = sent s @ [[word_of_int (periph_code opts)]]"
proof
  show "periph_code opts =
     0x81 + 64 * b2i (flag (p_power opts)) + 32 * b2i (flag (p_pullups opts))
          + 16 * b2i (flag (p_aux opts)) + 8 * b2i (flag (p_mosi opts))
          + 2 * b2i (flag (p_miso opts))"
    unfolding periph_code_def by (rule periph_bits)
  show "sent (call (RConfigPeriph opts) s) = sent s @ [[word_of_int (periph_code opts)]]"
    by (simp add: call_def run.simps exec_def config_periph_def bp_write_def)
qed

text \<open>The example of the claim: the byte for \<open>power\<close> and \<open>cs\<close>, and the call
  fulfilled once the write is done and the byte \<open>0x01\<close> has arrived.\<close>

lemma config_periph_power_cs:
  "periph_code \<lparr>p_power = Some True, p_pullups = None, p_aux = None, p_mosi = None,
                p_clk = None, p_miso = None, p_cs = Some True\<rparr> = 0xC1 \<and>
   sent (steps [Call (RConfigPeriph \<lparr>p_power = Some True, p_pullups = None, p_aux = None,
                  p_mosi = None, p_clk = None, p_miso = None, p_cs = Some True\<rparr>),
                WriteDone None, Data [0x01]]
           (new_session\<lparr>listening := True, mode := ''binmode''\<rparr>)) = [[0xC1]] \<and>
   tasks (steps [Call (RConfigPeriph \<lparr>p_power = Some True, p_pullups = None, p_aux = None,
                  p_mosi = None, p_clk = None, p_miso = None, p_cs = Some True\<rparr>),
                WriteDone None, Data [0x01]]
           (new_session\<lparr>listening := True, mode := ''binmode''\<rparr>)) =
     [Settled (Fulfilled VUndefined)]"
  by (simp add: eval_defs method_defs periph_code_def flag_def b2i_def)

subsection \<open>C5: the number of probe writes\<close>

lemma ticks_count:
  "tid < length (tasks s) \<Longrightarrow> tasks s ! tid = Blocked (OnProbe n) ls \<Longrightarrow> n + k \<le> 25 \<Longrightarrow>
   steps (replicate k (Tick tid)) s =
     s\<lparr>sent := sent s @ replicate k [0], callbacks := callbacks s @ replicate k None,
       tasks := (tasks s)[tid := Blocked (OnProbe (n + k)) ls]\<rparr>"
proof (induction k arbitrary: s n)
  case 0
  then have "(tasks s)[tid := Blocked (OnProbe n) ls] = tasks s"
    by (metis list_update_id)
  then show ?case by (simp add: steps_def)
next
  case (Suc k)
  let ?s' = "s\<lparr>sent := sent s @ [[0]], callbacks := callbacks s @ [None],
       tasks := (tasks s)[tid := Blocked (OnProbe (Suc n)) ls]\<rparr>"
  have "tick tid s = ?s'" using Suc.prems by (simp add: tick_def Let_def)
  moreover have "steps (replicate k (Tick tid)) ?s' =
     ?s'\<lparr>sent := sent ?s' @ replicate k [0], callbacks := callbacks ?s' @ replicate k None,
       tasks := (tasks ?s')[tid := Blocked (OnProbe (Suc n + k)) ls]\<rparr>"
    using Suc.prems by (intro Suc.IH) simp_all
  ultimately show ?case
    by (simp add: steps_def replicate_app_Cons_same)
qed

lemma ticks_settled:
  "tid < length (tasks s) \<Longrightarrow> tasks s ! tid = Settled oc \<Longrightarrow>
   steps (replicate k (Tick tid)) s = s"
  by (induction k) (simp_all add: steps_def tick_def)

lemma steps_append: "steps (xs @ ys) s = steps ys (steps xs s)"
  by (simp add: steps_def)

lemma call_enter_binmode:
  "mode s \<noteq> ''binmode'' \<Longrightarrow> mode s \<noteq> ''uart_bridge'' \<Longrightarrow>
   call REnterBinmode s =
     s\<lparr>waiters := (length (tasks s), to_buffer (Str (js ''BBIO1''))) # waiters s,
       tasks := tasks s @ [Blocked (OnProbe 0) []]\<rparr>"
  by (simp add: call_def run.simps exec_def enter_binmode_def)

lemma tick_exhausts:
  "tid < length (tasks s) \<Longrightarrow> tasks s ! tid = Blocked (OnProbe 25) ls \<Longrightarrow>
   tick tid s =
     run tid (Inl CannotAcquire) ls
       (s\<lparr>sent := sent s @ [[0]], callbacks := callbacks s @ [None], waiters := []\<rparr>)"
  by (simp add: tick_def Let_def)

lemma tick_last:
  "tid < length (tasks s) \<Longrightarrow> tasks s ! tid = Blocked (OnProbe 25) [] \<Longrightarrow>
   tick tid s =
     s\<lparr>sent := sent s @ [[0]], callbacks := callbacks s @ [None], waiters := [],
       tasks := (tasks s)[tid := Settled (Rejected CannotAcquire)]\<rparr>"
  by (simp add: tick_exhausts run.simps settle_def)

lemma ticks_exhaust:
  assumes "tid < length (tasks s)" and "tasks s ! tid = Blocked (OnProbe 0) []"
  shows "steps (replicate 26 (Tick tid)) s =
     s\<lparr>sent := sent s @ replicate 26 [0], callbacks := callbacks s @ replicate 26 None,
       waiters := [], tasks := (tasks s)[tid := Settled (Rejected CannotAcquire)]\<rparr>"
proof -
  define s25 where "s25 = steps (replicate 25 (Tick tid)) s"
  have s25: "s25 = s\<lparr>sent := sent s @ replicate 25 [0],
                 callbacks := callbacks s @ replicate 25 None,
                 tasks := (tasks s)[tid := Blocked (OnProbe 25) []]\<rparr>"
    unfolding s25_def using ticks_count[OF assms, of 25] by simp
  have "replicate 26 (Tick tid) = replicate 25 (Tick tid) @ [Tick tid]"
    by (simp add: replicate_append_same numeral_eq_Suc)
  then have "steps (replicate 26 (Tick tid)) s = tick tid s25"
    by (simp only: steps_append s25_def) (simp add: steps_def)
  also have "\<dots> = s25\<lparr>sent := sent s25 @ [[0]], callbacks := callbacks s25 @ [None],
       waiters := [], tasks := (tasks s25)[tid := Settled (Rejected CannotAcquire)]\<rparr>"
    using assms by (intro tick_last) (simp_all add: s25)
  also have "\<dots> = s\<lparr>sent := sent s @ replicate 26 [0],
       callbacks := callbacks s @ replicate 26 None,
       waiters := [], tasks := (tasks s)[tid := Settled (Rejected CannotAcquire)]\<rparr>"
    by (simp add: s25 replicate_append_same numeral_eq_Suc)
  finally show ?thesis .
qed

text \<open>
  C5: the code does not do what the claim says (nor what its own comment says,
  \<open>max 25 times\<close>). The interval callback writes the zero byte, then counts, then
  tests \<open>count > 25\<close>: the test fails at the 25th tick, and the 26th tick writes once
  more before it rejects. For a call of \<open>enter_binmode\<close> in a session that is in
  neither \<open>binmode\<close> nor \<open>uart_bridge\<close>, followed by \<open>k\<close> ticks and no \<open>BBIO1\<close>:
  \<open>min k 26\<close> zero bytes have been written, and the call has failed exactly when
  \<open>k\<close> is 26 or more.
\<close>

theorem C5_probe_writes:
  assumes "mode s \<noteq> ''binmode''" and "mode s \<noteq> ''uart_bridge''"
  shows "sent (steps (Call REnterBinmode # replicate k (Tick (length (tasks s)))) s) =
           sent s @ replicate (min k 26) [0] \<and>
         tasks (steps (Call REnterBinmode # replicate k (Tick (length (tasks s)))) s)
             ! length (tasks s) =
           (if k < 26 then Blocked (OnProbe k) [] else Settled (Rejected CannotAcquire))"
proof -
  define n where "n = length (tasks s)"
  define s0 where "s0 = call REnterBinmode s"
  have s0: "n < length (tasks s0)" "tasks s0 ! n = Blocked (OnProbe 0) []" "sent s0 = sent s"
    using assms by (simp_all add: call_enter_binmode s0_def n_def)
  have st: "steps (Call REnterBinmode # replicate k (Tick n)) s = steps (replicate k (Tick n)) s0"
    by (simp add: steps_def s0_def)
  have "sent (steps (replicate k (Tick n)) s0) = sent s @ replicate (min k 26) [0] \<and>
        tasks (steps (replicate k (Tick n)) s0) ! n =
           (if k < 26 then Blocked (OnProbe k) [] else Settled (Rejected CannotAcquire))"
  proof (cases "k \<le> 25")
    case True
    then show ?thesis
      using ticks_count[OF s0(1,2), of k] s0 by simp
  next
    case False
    define j where "j = k - 26"
    define s26 where "s26 = steps (replicate 26 (Tick n)) s0"
    have s26: "s26 = s0\<lparr>sent := sent s0 @ replicate 26 [0],
       callbacks := callbacks s0 @ replicate 26 None,
       waiters := [], tasks := (tasks s0)[n := Settled (Rejected CannotAcquire)]\<rparr>"
      unfolding s26_def by (rule ticks_exhaust[OF s0(1,2)])
    have "k = 26 + j" using False by (simp add: j_def)
    then have "replicate k (Tick n) = replicate 26 (Tick n) @ replicate j (Tick n)"
      by (simp only: replicate_add)
    then have "steps (replicate k (Tick n)) s0 = steps (replicate j (Tick n)) s26"
      by (simp only: steps_append s26_def)
    also have "\<dots> = s26"
      using s0 by (intro ticks_settled[where oc="Rejected CannotAcquire"]) (simp_all add: s26)
    finally show ?thesis using False s0 by (simp add: s26)
  qed
  then show ?thesis unfolding n_def st[unfolded n_def] .
qed

theorem C5_probe_writes_witness:
  "mode new_session \<noteq> ''binmode'' \<and> mode new_session \<noteq> ''uart_bridge'' \<and>
   length (sent (steps (Call REnterBinmode # replicate 26 (Tick 0)) new_session)) = 26 \<and>
   tasks (steps (Call REnterBinmode # replicate 26 (Tick 0)) new_session) ! 0 =
     Settled (Rejected CannotAcquire)"
  using C5_probe_writes[of new_session 26] by (simp add: new_session_def str_defs)

subsection \<open>What a chain can change\<close>

lemma on_error_effect:
  "on_error l e s = Go r' new s' \<Longrightarrow> tasks s' = tasks s \<and> waiters s' = waiters s"
  by (cases l) (auto split: if_splits)

lemma on_value_Go_effect:
  "on_value tid l v s = Go r' new s' \<Longrightarrow> tasks s' = tasks s \<and> waiters s' = waiters s"
  by (cases l) (auto simp: method_defs Let_def split: if_splits sum.splits)

lemma on_value_Wait_effect:
  "on_value tid l v s = Wait w s' \<Longrightarrow>
     tasks s' = tasks s \<and> fst ` set (waiters s') \<subseteq> insert tid (fst ` set (waiters s))"
  by (cases l) (auto simp: method_defs Let_def split: if_splits sum.splits)

lemma exec_Go_effect:
  "exec tid l r s = Go r' new s' \<Longrightarrow> tasks s' = tasks s \<and> waiters s' = waiters s"
  by (cases r) (auto simp: exec_def dest: on_error_effect on_value_Go_effect)

lemma exec_Wait_effect:
  "exec tid l r s = Wait w s' \<Longrightarrow>
     tasks s' = tasks s \<and> fst ` set (waiters s') \<subseteq> insert tid (fst ` set (waiters s))"
  by (cases r) (auto simp: exec_def on_error_no_wait dest: on_value_Wait_effect)

lemma run_effect:
  "length (tasks (run tid r ls s)) = length (tasks s) \<and>
   (t \<noteq> tid \<longrightarrow> tasks (run tid r ls s) ! t = tasks s ! t) \<and>
   fst ` set (waiters (run tid r ls s)) \<subseteq> insert tid (fst ` set (waiters s))"
proof (induction tid r ls s rule: run.induct)
  case (1 tid r s)
  then show ?case by (auto simp: run.simps)
next
  case (2 tid r l ls s)
  show ?case
  proof (cases "exec tid l r s")
    case (Go r' new s')
    with 2 exec_Go_effect[OF Go] show ?thesis by (simp add: run.simps)
  next
    case (Wait w s')
    with exec_Wait_effect[OF Wait] show ?thesis by (simp add: run.simps)
  qed
qed

lemma dropped_run:
  "dropped t ls s \<Longrightarrow> tid \<noteq> t \<Longrightarrow> dropped t ls (run tid r ks s)"
  using run_effect[of tid r ks s t] by (auto simp: dropped_def)

lemma kept_subset: "set (kept ws b) \<subseteq> set ws"
  by (induction ws arbitrary: b) (auto split: option.splits)

lemma hits_subset: "fst ` set (hits ws b) \<subseteq> fst ` set ws"
  by (induction ws arbitrary: b) (auto split: option.splits)

lemma dropped_resume:
  "dropped t ls s \<Longrightarrow> fst rv \<noteq> t \<Longrightarrow> dropped t ls (resume rv s)"
proof -
  assume d: "dropped t ls s" and ne: "fst rv \<noteq> t"
  have b: "dropped t ls (binmode_entered s)"
    using d by (simp add: dropped_def binmode_entered_def emit_mode_def)
  show ?thesis
    using d b ne by (auto simp: resume_def dropped_run split: task.splits wait.splits)
qed

lemma dropped_fold_resume:
  "dropped t ls s \<Longrightarrow> t \<notin> fst ` set rvs \<Longrightarrow> dropped t ls (fold resume rvs s)"
  by (induction rvs arbitrary: s) (auto simp: dropped_resume)

lemma dropped_deliver: "dropped t ls s \<Longrightarrow> dropped t ls (deliver d s)"
proof -
  assume d: "dropped t ls s"
  show ?thesis
  proof (cases "listening s \<and> waiters s \<noteq> []")
    case False
    then show ?thesis using d by (auto simp: deliver_def on_data_def)
  next
    case True
    let ?b = "data_buffer s @ d"
    let ?ws = "rev (waiters s)"
    have od: "on_data d s = s\<lparr>waiters := rev (kept ?ws ?b),
             resolved := resolved s @ hits ?ws ?b, data_buffer := rest ?ws ?b\<rparr>"
      using True by (simp add: on_data_scan)
    have "dropped t ls (on_data d s)"
      using d kept_subset[of ?ws ?b] by (auto simp: od dropped_def)
    moreover have "t \<notin> fst ` set (hits ?ws ?b)"
      using d hits_subset[of ?ws ?b] by (auto simp: dropped_def)
    ultimately show ?thesis
      using True by (simp add: deliver_def dropped_fold_resume) (simp add: od dropped_fold_resume)
  qed
qed

lemma dropped_call: "dropped t ls s \<Longrightarrow> dropped t ls (call rq s)"
proof -
  assume d: "dropped t ls s"
  then have "dropped t ls (s\<lparr>tasks := tasks s @ [Blocked OnWaiter []]\<rparr>)"
    by (simp add: dropped_def nth_append)
  moreover have "length (tasks s) \<noteq> t" using d by (simp add: dropped_def)
  ultimately show ?thesis by (simp add: call_def dropped_run)
qed

lemma dropped_tick: "dropped t ls s \<Longrightarrow> dropped t ls (tick tid s)"
proof -
  assume d: "dropped t ls s"
  show ?thesis
  proof (cases "tid < length (tasks s) \<and> (\<exists>n ks. tasks s ! tid = Blocked (OnProbe n) ks)")
    case False
    then have "tick tid s = s"
      by (auto simp: tick_def split: task.splits wait.splits)
    then show ?thesis using d by simp
  next
    case True
    then obtain n ks where p: "tid < length (tasks s)" "tasks s ! tid = Blocked (OnProbe n) ks"
      by auto
    then have ne: "tid \<noteq> t" using d by (auto simp: dropped_def)
    let ?s1 = "s\<lparr>sent := sent s @ [[0]], callbacks := callbacks s @ [None]\<rparr>"
    show ?thesis
    proof (cases "n + 1 > 25")
      case True
      have "dropped t ls (?s1\<lparr>waiters := []\<rparr>)" using d by (simp add: dropped_def)
      then have "dropped t ls (run tid (Inl CannotAcquire) ks (?s1\<lparr>waiters := []\<rparr>))"
        using ne by (rule dropped_run)
      moreover have "tick tid s = run tid (Inl CannotAcquire) ks (?s1\<lparr>waiters := []\<rparr>)"
        using p True by (simp add: tick_def Let_def)
      ultimately show ?thesis by simp
    next
      case False
      then have "tick tid s = ?s1\<lparr>tasks := (tasks ?s1)[tid := Blocked (OnProbe (n + 1)) ks]\<rparr>"
        using p by (simp add: tick_def Let_def)
      then show ?thesis using d ne by (simp add: dropped_def)
    qed
  qed
qed

lemma dropped_write_done: "dropped t ls s \<Longrightarrow> dropped t ls (write_done err s)"
proof -
  assume d: "dropped t ls s"
  show ?thesis
  proof (cases "callbacks s")
    case Nil
    then show ?thesis using d by (simp add: write_done_def)
  next
    case (Cons cb cbs)
    let ?s1 = "s\<lparr>callbacks := cbs\<rparr>"
    have d1: "dropped t ls ?s1" using d by (simp add: dropped_def)
    show ?thesis
    proof (cases "\<exists>tid ks. cb = Some tid \<and> tid < length (tasks s) \<and> tasks s ! tid = Blocked OnWrite ks")
      case False
      then have "write_done err s = ?s1"
        using Cons by (auto simp: write_done_def Let_def split: option.splits task.splits wait.splits)
      then show ?thesis using d1 by simp
    next
      case True
      then obtain tid ks where p: "cb = Some tid" "tid < length (tasks s)"
          "tasks s ! tid = Blocked OnWrite ks" by auto
      then have ne: "tid \<noteq> t" using d by (auto simp: dropped_def)
      have "write_done err s =
            run tid (case err of None \<Rightarrow> Inr (VBool True) | Some e \<Rightarrow> Inl e) ks ?s1"
        using Cons p by (simp add: write_done_def Let_def)
      then show ?thesis using dropped_run[OF d1 ne] by simp
    qed
  qed
qed

lemma dropped_timeout: "dropped t ls s \<Longrightarrow> dropped t ls (timeout tid s)"
proof (cases "tid = t")
  case True
  assume "dropped t ls s"
  then show ?thesis using True by (simp add: timeout_def dropped_def)
next
  case False
  assume "dropped t ls s"
  then show ?thesis
    using False by (auto simp: timeout_def dropped_run split: task.splits wait.splits)
qed

lemma dropped_step: "dropped t ls s \<Longrightarrow> dropped t ls (step ev s)"
  by (cases ev) (simp_all add: dropped_call dropped_deliver dropped_write_done dropped_timeout dropped_tick)

lemma dropped_steps: "dropped t ls s \<Longrightarrow> dropped t ls (steps evs s)"
  unfolding steps_def by (induction evs arbitrary: s) (simp_all add: dropped_step)


lemma on_error_bridge:
  "mode s = ''uart_bridge'' \<Longrightarrow> on_error l e s = Go r' new s' \<Longrightarrow>
     mode s' = ''uart_bridge'' \<and> list_all quiet_link new"
  by (cases l) (auto split: if_splits)

lemma on_value_Go_bridge:
  "mode s = ''uart_bridge'' \<Longrightarrow> quiet_link l \<Longrightarrow> on_value tid l v s = Go r' new s' \<Longrightarrow>
     mode s' = ''uart_bridge'' \<and> list_all quiet_link new"
  by (cases l) (auto simp: method_defs Let_def split: if_splits sum.splits)

lemma on_value_Wait_bridge:
  "mode s = ''uart_bridge'' \<Longrightarrow> on_value tid l v s = Wait w s' \<Longrightarrow>
     mode s' = ''uart_bridge'' \<and> (\<forall>n. w \<noteq> OnProbe n)"
  by (cases l) (auto simp: method_defs Let_def split: if_splits sum.splits)

lemma exec_Go_bridge:
  "mode s = ''uart_bridge'' \<Longrightarrow> quiet_link l \<Longrightarrow> exec tid l r s = Go r' new s' \<Longrightarrow>
     mode s' = ''uart_bridge'' \<and> list_all quiet_link new"
  by (cases r) (auto simp: exec_def dest: on_error_bridge on_value_Go_bridge)

lemma exec_Wait_bridge:
  "mode s = ''uart_bridge'' \<Longrightarrow> exec tid l r s = Wait w s' \<Longrightarrow>
     mode s' = ''uart_bridge'' \<and> (\<forall>n. w \<noteq> OnProbe n)"
  by (cases r) (auto simp: exec_def on_error_no_wait dest: on_value_Wait_bridge)

lemma quiet_update:
  "list_all quiet_task ts \<Longrightarrow> quiet_task x \<Longrightarrow> list_all quiet_task (ts[i := x])"
  by (auto simp: list_all_iff dest: set_update_subset_insert[THEN subsetD])

lemma quiet_Blocked:
  "\<forall>n. w \<noteq> OnProbe n \<Longrightarrow> quiet_task (Blocked w ls) = list_all quiet_link ls"
  by (cases w) auto

lemma run_bridge:
  "bridged s \<Longrightarrow> list_all quiet_link ls \<Longrightarrow> bridged (run tid r ls s)"
proof (induction tid r ls s rule: run.induct)
  case (1 tid r s)
  then show ?case by (simp add: run.simps bridged_def settle_def quiet_update)
next
  case (2 tid r l ls s)
  show ?case
  proof (cases "exec tid l r s")
    case (Go r' new s')
    have "mode s' = ''uart_bridge'' \<and> list_all quiet_link new"
      using 2(2,3) Go by (intro exec_Go_bridge[of s l tid r r' new s']) (simp_all add: bridged_def)
    moreover have "tasks s' = tasks s" using exec_Go_effect[OF Go] by simp
    ultimately have "bridged (run tid r' (new @ ls) s')"
      using 2(2,3) by (intro 2(1)[OF Go]) (simp_all add: bridged_def)
    then show ?thesis using Go by (simp add: run.simps)
  next
    case (Wait w s')
    have "mode s' = ''uart_bridge'' \<and> (\<forall>n. w \<noteq> OnProbe n)"
      using 2(2) Wait by (intro exec_Wait_bridge[of s tid l r w s']) (simp_all add: bridged_def)
    moreover have "tasks s' = tasks s" using exec_Wait_effect[OF Wait] by simp
    ultimately show ?thesis
      using 2(2,3) Wait by (simp add: run.simps bridged_def quiet_update quiet_Blocked)
  qed
qed

lemma quiet_nth: "list_all quiet_task ts \<Longrightarrow> i < length ts \<Longrightarrow> quiet_task (ts ! i)"
  by (simp add: list_all_length)

lemma bridged_resume: "bridged s \<Longrightarrow> bridged (resume rv s)"
proof -
  assume b: "bridged s"
  show ?thesis
  proof (cases "fst rv < length (tasks s)")
    case False
    then show ?thesis using b by (simp add: resume_def)
  next
    case True
    then have q: "quiet_task (tasks s ! fst rv)" using b by (simp add: bridged_def quiet_nth)
    show ?thesis
    proof (cases "tasks s ! fst rv")
      case (Settled oc)
      then show ?thesis using b True by (simp add: resume_def)
    next
      case (Blocked w ls)
      then show ?thesis using b True q by (cases w) (simp_all add: resume_def run_bridge)
    qed
  qed
qed

lemma bridged_fold_resume: "bridged s \<Longrightarrow> bridged (fold resume rvs s)"
  by (induction rvs arbitrary: s) (simp_all add: bridged_resume)

lemma bridged_on_data: "bridged s \<Longrightarrow> bridged (on_data d s)"
  by (simp add: on_data_scan bridged_def)

lemma bridged_deliver: "bridged s \<Longrightarrow> bridged (deliver d s)"
  by (simp add: deliver_def bridged_fold_resume bridged_on_data)

lemma bridged_call: "bridged s \<Longrightarrow> bridged (call rq s)"
proof -
  assume "bridged s"
  then have "bridged (s\<lparr>tasks := tasks s @ [Blocked OnWaiter []]\<rparr>)"
    by (simp add: bridged_def)
  moreover have "list_all quiet_link [link_of rq]" by (cases rq) simp_all
  ultimately show ?thesis unfolding call_def by (rule run_bridge)
qed

lemma bridged_tick: "bridged s \<Longrightarrow> bridged (tick tid s)"
proof -
  assume b: "bridged s"
  have "tid < length (tasks s) \<Longrightarrow> quiet_task (tasks s ! tid)"
    using b by (simp add: bridged_def quiet_nth)
  then have "tick tid s = s"
    by (auto simp: tick_def split: task.splits wait.splits)
  then show ?thesis using b by simp
qed

lemma bridged_write_done: "bridged s \<Longrightarrow> bridged (write_done err s)"
proof -
  assume b: "bridged s"
  show ?thesis
  proof (cases "callbacks s")
    case Nil
    then show ?thesis using b by (simp add: write_done_def)
  next
    case (Cons cb cbs)
    let ?s1 = "s\<lparr>callbacks := cbs\<rparr>"
    have b1: "bridged ?s1" using b by (simp add: bridged_def)
    show ?thesis
    proof (cases "\<exists>tid ks. cb = Some tid \<and> tid < length (tasks s) \<and> tasks s ! tid = Blocked OnWrite ks")
      case False
      then have "write_done err s = ?s1"
        using Cons by (auto simp: write_done_def Let_def split: option.splits task.splits wait.splits)
      then show ?thesis using b1 by simp
    next
      case True
      then obtain tid ks where p: "cb = Some tid" "tid < length (tasks s)"
          "tasks s ! tid = Blocked OnWrite ks" by auto
      then have "quiet_task (Blocked OnWrite ks)" using b quiet_nth[of "tasks s" tid] by (simp add: bridged_def)
      then have q: "list_all quiet_link ks" by simp
      have "write_done err s =
            run tid (case err of None \<Rightarrow> Inr (VBool True) | Some e \<Rightarrow> Inl e) ks ?s1"
        using Cons p by (simp add: write_done_def Let_def)
      then show ?thesis using run_bridge[OF b1 q] by simp
    qed
  qed
qed

lemma bridged_timeout: "bridged s \<Longrightarrow> bridged (timeout tid s)"
proof -
  assume b: "bridged s"
  show ?thesis
  proof (cases "\<exists>ks. tid < length (tasks s) \<and> tasks s ! tid = Blocked OnTimer ks")
    case False
    then have "timeout tid s = s"
      by (auto simp: timeout_def split: task.splits wait.splits)
    then show ?thesis using b by simp
  next
    case True
    then obtain ks where p: "tid < length (tasks s)" "tasks s ! tid = Blocked OnTimer ks" by auto
    then have "quiet_task (Blocked OnTimer ks)" using b quiet_nth[of "tasks s" tid] by (simp add: bridged_def)
    then have q: "list_all quiet_link ks" by simp
    have "timeout tid s = run tid (Inr (VBool True)) ks s" using p by (simp add: timeout_def)
    then show ?thesis using run_bridge[OF b q] by simp
  qed
qed

lemma bridged_step: "bridged s \<Longrightarrow> bridged (step ev s)"
  by (cases ev) (simp_all add: bridged_call bridged_deliver bridged_write_done bridged_timeout bridged_tick)

lemma bridged_steps: "bridged s \<Longrightarrow> bridged (steps evs s)"
  unfolding steps_def by (induction evs arbitrary: s) (simp_all add: bridged_step)

subsection \<open>C4: the matchers pending when the probing gives up\<close>

text \<open>
  C4, as stated, fails: when the counter passes 25 the interval callback empties
  \<open>waiters\<close> and rejects the promise of the probe loop, and that is all. A waiter has
  no way to fail its promise (\<open>expect\<close> never uses \<open>reject\<close>), so the promise of
  a matcher that was pending is neither resolved nor rejected. Here a matcher for the
  byte 7 is pending when \<open>enter_binmode\<close> gives up at its 26th tick: its promise is
  still pending afterwards, and stays so when the byte 7 arrives.
\<close>

theorem C4_pending_matcher_counterexample:
  "tasks (steps (Call (RExpect (Num 7)) # Call REnterBinmode # replicate 26 (Tick 1) @ [Data [7]])
            (new_session\<lparr>listening := True\<rparr>)) =
     [Blocked OnWaiter [], Settled (Rejected CannotAcquire)] \<and>
   waiters (steps (Call (RExpect (Num 7)) # Call REnterBinmode # replicate 26 (Tick 1) @ [Data [7]])
            (new_session\<lparr>listening := True\<rparr>)) = [] \<and>
   resolved (steps (Call (RExpect (Num 7)) # Call REnterBinmode # replicate 26 (Tick 1) @ [Data [7]])
            (new_session\<lparr>listening := True\<rparr>)) = []"
proof -
  define s2 where "s2 = steps [Call (RExpect (Num 7)), Call REnterBinmode] (new_session\<lparr>listening := True\<rparr>)"
  have s2: "s2 = new_session\<lparr>listening := True,
       waiters := [(1, to_buffer (Str (js ''BBIO1''))), (0, [7])],
       tasks := [Blocked OnWaiter [], Blocked (OnProbe 0) []]\<rparr>"
    unfolding s2_def by (simp add: steps_def call_expect call_enter_binmode new_session_def)
  define s3 where "s3 = steps (replicate 26 (Tick 1)) s2"
  have s3: "s3 = s2\<lparr>sent := sent s2 @ replicate 26 [0], callbacks := callbacks s2 @ replicate 26 None,
       waiters := [], tasks := (tasks s2)[1 := Settled (Rejected CannotAcquire)]\<rparr>"
    unfolding s3_def by (rule ticks_exhaust) (simp_all add: s2)
  have "steps (Call (RExpect (Num 7)) # Call REnterBinmode # replicate 26 (Tick 1) @ [Data [7]])
            (new_session\<lparr>listening := True\<rparr>) = deliver [7] s3"
    unfolding s3_def s2_def by (simp add: steps_def)
  also have "\<dots> = s3" by (rule deliver_idle) (simp add: s3)
  finally show ?thesis by (simp add: s3 s2 new_session_def)
qed

text \<open>
  C4 (amended): when a call of \<open>enter_binmode\<close> exhausts its retries (the tick that
  takes its counter past 25), the collection of pending matchers is emptied and the
  call fails with the error \<open>cannot acquire binary mode\<close>. The matchers that were
  pending are dropped, not abandoned: none is resolved by this, and the promise of
  each of them stays pending whatever happens later.
\<close>

theorem C4_pending_matchers_are_dropped:
  assumes "tid < length (tasks s)" and "tasks s ! tid = Blocked (OnProbe 25) []"
    and "t < length (tasks s)" and "tasks s ! t = Blocked OnWaiter ls"
  shows "waiters (step (Tick tid) s) = [] \<and>
         tasks (step (Tick tid) s) ! tid = Settled (Rejected CannotAcquire) \<and>
         resolved (step (Tick tid) s) = resolved s \<and>
         (\<forall>evs. tasks (steps (Tick tid # evs) s) ! t = Blocked OnWaiter ls)"
proof -
  define s' where "s' = step (Tick tid) s"
  have s': "s' = s\<lparr>sent := sent s @ [[0]], callbacks := callbacks s @ [None], waiters := [],
       tasks := (tasks s)[tid := Settled (Rejected CannotAcquire)]\<rparr>"
    unfolding s'_def using assms(1,2) by (simp add: tick_last)
  have ne: "t \<noteq> tid" using assms(2,4) by auto
  then have "dropped t ls s'" using assms(3,4) by (simp add: s' dropped_def)
  then have "\<And>evs. dropped t ls (steps evs s')" by (rule dropped_steps)
  moreover have "\<And>evs. steps (Tick tid # evs) s = steps evs s'"
    by (simp add: steps_def s'_def)
  ultimately have "\<forall>evs. tasks (steps (Tick tid # evs) s) ! t = Blocked OnWaiter ls"
    by (simp add: dropped_def)
  moreover have "waiters s' = [] \<and> tasks s' ! tid = Settled (Rejected CannotAcquire) \<and>
      resolved s' = resolved s"
    using assms(1) by (simp add: s')
  ultimately show ?thesis unfolding s'_def by blast
qed

text \<open>The session of the counterexample before the last tick.\<close>

theorem C4_pending_matchers_are_dropped_witness:
  "tasks (new_session\<lparr>listening := True, waiters := [(1, to_buffer (Str (js ''BBIO1''))), (0, [7])],
             tasks := [Blocked OnWaiter [], Blocked (OnProbe 25) []]\<rparr>) ! 1 = Blocked (OnProbe 25) [] \<and>
   waiters (step (Tick 1) (new_session\<lparr>listening := True, waiters := [(1, to_buffer (Str (js ''BBIO1''))), (0, [7])],
             tasks := [Blocked OnWaiter [], Blocked (OnProbe 25) []]\<rparr>)) = [] \<and>
   tasks (steps [Tick 1, Data [7]] (new_session\<lparr>listening := True, waiters := [(1, to_buffer (Str (js ''BBIO1''))), (0, [7])],
             tasks := [Blocked OnWaiter [], Blocked (OnProbe 25) []]\<rparr>)) ! 0 = Blocked OnWaiter []"
  using C4_pending_matchers_are_dropped[of 1 "new_session\<lparr>listening := True, waiters := [(1, to_buffer (Str (js ''BBIO1''))), (0, [7])],
             tasks := [Blocked OnWaiter [], Blocked (OnProbe 25) []]\<rparr>" 0 "[]"]
  by (simp add: new_session_def str_defs)

subsection \<open>C10: the bridge mode is final\<close>

text \<open>
  C10, as stated, fails for an operation that was begun before the bridge was
  entered. \<open>switch_mode\<close> tests for the bridge when it is called, but its last
  callback sets the mode with no such test. Here \<open>switch_mode\<close> for the mode
  \<open>uart\<close> is called in \<open>binmode\<close> and waits for \<open>ART1\<close>; then \<open>uart_bridge\<close> is
  called and sets the mode \<open>uart_bridge\<close>; then \<open>ART1\<close> arrives, and the mode is
  \<open>uart\<close>.
\<close>

theorem C10_pending_switch_counterexample:
  "mode (steps [Call (RSwitchMode uart_constants), WriteDone None, Call RUartBridge,
                WriteDone None]
          (new_session\<lparr>mode := ''binmode'', listening := True\<rparr>)) = ''uart_bridge'' \<and>
   mode (steps [Call (RSwitchMode uart_constants), WriteDone None, Call RUartBridge,
                WriteDone None, Data (to_buffer (Str (js ''ART1'')))]
          (new_session\<lparr>mode := ''binmode'', listening := True\<rparr>)) = ''uart''"
  by (simp add: steps_def call_def run.simps exec_def switch_mode_def uart_bridge_def
      set_bridge_def set_mode_def emit_mode_def bp_write_def expect_def write_done_def
      deliver_def on_data_scan waiter_fn_eq resume_def settle_def new_session_def
      uart_constants_def str_defs)

text \<open>
  C10 (amended): let the session be in the mode \<open>uart_bridge\<close> with every pending
  chain quiet: none is waiting in the probe loop of \<open>enter_binmode\<close> and none has a
  callback left that sets another mode (no operation begun before the bridge was
  entered has a mode still to set). Then whatever happens next, calls of any method
  of BusPirate and Uart with any arguments, chunks, write callbacks with or without
  errors, timeouts and ticks, in any order, the mode is \<open>uart_bridge\<close> afterwards:
  no operation called in the bridge mode sets another mode.
\<close>

theorem C10_bridge_mode_is_final:
  assumes "mode s = ''uart_bridge''" and "list_all quiet_task (tasks s)"
  shows "mode (steps evs s) = ''uart_bridge''"
  using bridged_steps[of s evs] assms by (simp add: bridged_def)

text \<open>The bridge entered from \<open>binmode\<close> by \<open>uart_bridge\<close>, and then calls of
  \<open>enter_binmode\<close>, \<open>switch_mode\<close>, \<open>start\<close> and others, with the acknowledgments
  that would have changed the mode.\<close>

theorem C10_bridge_mode_is_final_witness:
  "mode (steps [Call RUartBridge, WriteDone None] (new_session\<lparr>mode := ''binmode'', listening := True\<rparr>)) = ''uart_bridge'' \<and>
   list_all quiet_task (tasks (steps [Call RUartBridge, WriteDone None] (new_session\<lparr>mode := ''binmode'', listening := True\<rparr>))) \<and>
   mode (steps [Call REnterBinmode, Call (RSwitchMode uart_constants), Data (to_buffer (Str (js ''BBIO1''))),
                Call (RUartStart \<lparr>opt_baudrate = None, opt_pin_output = None, opt_data_bits = None,
                    opt_parity_bit = None, opt_stop_bits = None, opt_idle_polarity = None\<rparr>),
                Data (to_buffer (Str (js ''ART1''))), Call (REchoRx True), Call RUartBridge, Call (RUartWrite (js ''hello'')),
                WriteDone None, Tick 1, Call ROpen, WriteDone None, Timer 7]
          (steps [Call RUartBridge, WriteDone None] (new_session\<lparr>mode := ''binmode'', listening := True\<rparr>))) = ''uart_bridge''"
proof -
  have s: "steps [Call RUartBridge, WriteDone None] (new_session\<lparr>mode := ''binmode'', listening := True\<rparr>) =
    new_session\<lparr>mode := ''uart_bridge'', listening := True, sent := [[0x0f]],
       tasks := [Settled (Fulfilled (VBool True))], emitted := [NUartBridge]\<rparr>"
    by (simp add: eval_defs method_defs)
  show ?thesis
    unfolding s
    using C10_bridge_mode_is_final[of "new_session\<lparr>mode := ''uart_bridge'', listening := True, sent := [[0x0f]],
       tasks := [Settled (Fulfilled (VBool True))], emitted := [NUartBridge]\<rparr>"]
    by (simp add: new_session_def str_defs)
qed

section \<open>The claims about the UART driver\<close>

subsection \<open>C7: the errors of \<open>write_block\<close>\<close>

lemma chunk_loop_length: "c \<in> set (chunk_loop n ofs str sz) \<Longrightarrow> length c \<le> sz"
  by (induction n arbitrary: ofs) auto

lemma chunkSubstr_nonempty: "b \<noteq> [] \<Longrightarrow> chunkSubstr b 16 \<noteq> []"
proof -
  assume "b \<noteq> []"
  then have "(length b + 16 - 1) div 16 \<noteq> 0" by (cases b) simp_all
  then obtain n where "(length b + 16 - 1) div 16 = Suc n"
    using not0_implies_Suc by blast
  then show ?thesis by (simp add: chunkSubstr_def)
qed

lemma run_blocks_not_started:
  "\<not> started s \<Longrightarrow> \<forall>c \<in> set cs. length c \<le> 16 \<Longrightarrow> cs \<noteq> [] \<Longrightarrow>
   run tid (Inr v) (map LWriteBlock cs) s =
     s\<lparr>tasks := (tasks s)[tid := Settled (Fulfilled (VError NotStarted))]\<rparr>"
proof (induction cs arbitrary: v)
  case Nil
  then show ?case by simp
next
  case (Cons c cs)
  have e: "exec tid (LWriteBlock c) (Inr v) s = Go (Inr (VError NotStarted)) [] s"
    using Cons.prems by (simp add: exec_def then_write_block_def write_block_def)
  show ?case
  proof (cases "cs = []")
    case True
    then show ?thesis using e by (simp add: run.simps settle_def)
  next
    case False
    then show ?thesis using e Cons by (simp add: run.simps)
  qed
qed

text \<open>
  C7: the code does not do what the claim says. \<open>write_block\<close> does make the two
  errors, the size error first, but it returns the Error object as its value, in
  place of a promise; it neither throws it nor rejects with it. In \<open>write\<close> the
  value returned by the callback \<open>() => this.write_block(chunk)\<close> fulfils the
  chain: with the driver not started (and outside the bridge mode) the promise of
  \<open>write\<close> is fulfilled with the Error object, a success, the later chunks are
  tried all the same, and nothing is written.
\<close>

theorem C7_error_returned_as_value:
  assumes "\<not> started s" and "mode s \<noteq> ''uart_bridge''" and "b \<noteq> []"
  shows "call (RUartWrite b) s =
           s\<lparr>tasks := tasks s @ [Settled (Fulfilled (VError NotStarted))]\<rparr> \<and>
         write_block b s = (if length b > 16 then Inl TooManyBytes else Inl NotStarted)"
proof
  let ?s' = "s\<lparr>tasks := tasks s @ [Blocked OnWaiter []]\<rparr>"
  have "exec (length (tasks s)) (LUartWrite b) (Inr VUndefined) ?s' =
        Go (Inr (VBool True)) (map LWriteBlock (chunkSubstr b 16)) ?s'"
    using assms by (simp add: exec_def uart_write_def)
  moreover have "run (length (tasks s)) (Inr (VBool True)) (map LWriteBlock (chunkSubstr b 16)) ?s' =
     ?s'\<lparr>tasks := (tasks ?s')[length (tasks s) := Settled (Fulfilled (VError NotStarted))]\<rparr>"
    using assms chunkSubstr_nonempty[of b] chunk_loop_length
    by (intro run_blocks_not_started) (auto simp: chunkSubstr_def)
  ultimately show "call (RUartWrite b) s =
           s\<lparr>tasks := tasks s @ [Settled (Fulfilled (VError NotStarted))]\<rparr>"
    by (simp add: call_def run.simps)
  show "write_block b s = (if length b > 16 then Inl TooManyBytes else Inl NotStarted)"
    using assms by (simp add: write_block_def)
qed

theorem C7_error_returned_as_value_witness:
  "\<not> started (new_session\<lparr>mode := ''binmode''\<rparr>) \<and>
   tasks (call (RUartWrite (js ''A'')) (new_session\<lparr>mode := ''binmode''\<rparr>)) = [Settled (Fulfilled (VError NotStarted))] \<and>
   sent (call (RUartWrite (js ''A'')) (new_session\<lparr>mode := ''binmode''\<rparr>)) = [] \<and>
   write_block (js ''A'') (new_session\<lparr>mode := ''binmode''\<rparr>) = Inl NotStarted"
  using C7_error_returned_as_value[of "new_session\<lparr>mode := ''binmode''\<rparr>" "js ''A''"]
  by (simp add: new_session_def str_defs)

subsection \<open>C8: a payload of 20 bytes\<close>















end
